theory Spec2Isabelle
  imports Main "HOL-Library.Word"
begin

unbundle bit_operations_syntax

section \<open>Extendible hash table (container/hash/extendible_hash_table.cpp)\<close>

text \<open>
  The members of the source end in an underscore (\<open>dir_\<close>, \<open>depth_\<close>), which is not a
  name here, so the fields drop it. A bucket holds its capacity \<open>size_\<close> (\<open>bsize\<close>), its
  local depth \<open>depth_\<close> and the list of pairs \<open>list_\<close> (\<open>items\<close>, after its accessor
  \<open>GetItems\<close>).

  The directory \<open>dir\<close> is a vector of shared pointers: several slots may point to one
  bucket, and \<open>Bucket::Insert\<close> through one slot is seen through all of them. The model
  keeps that aliasing: \<open>store\<close> is the heap of buckets, a bucket's address is its index
  in \<open>store\<close>, and \<open>dir\<close> holds addresses. \<open>make_shared\<close> appends a fresh bucket to the heap.

  \<open>std::hash<K>\<close> is a parameter \<open>h\<close> of every operation. Hash values (\<open>size_t\<close>) and depths
  are natural numbers; the \<open>int\<close> shifts \<open>1 << depth\<close> of the source are \<open>2 ^ depth\<close>, which is
  what they compute for every depth below 31.
\<close>

record ('k, 'v) Bucket =
  bsize :: nat
  depth :: nat
  items :: "('k \<times> 'v) list"

record ('k, 'v) ExtendibleHashTable =
  global_depth :: nat
  bucket_size :: nat
  num_buckets :: nat
  dir :: "nat list"
  store :: "('k, 'v) Bucket list"

definition new_Bucket :: "nat \<Rightarrow> nat \<Rightarrow> ('k, 'v) Bucket" where
  "new_Bucket array_size d = \<lparr>bsize = array_size, depth = d, items = []\<rparr>"

text \<open>
  The constructor (lines 25-27) makes one directory slot with one bucket. Modelled from
  the spec: the initial values of \<open>global_depth_\<close> and \<open>num_buckets_\<close> are set in the header,
  which is not among the sources; the spec gives depth 0 and one bucket.
\<close>

definition new_ExtendibleHashTable :: "nat \<Rightarrow> ('k, 'v) ExtendibleHashTable" where
  "new_ExtendibleHashTable n =
     \<lparr>global_depth = 0, bucket_size = n, num_buckets = 1,
      dir = [0], store = [new_Bucket n 0]\<rparr>"

subsection \<open>Bucket operations\<close>

text \<open>
  Modelled from the spec: \<open>IsFull\<close>, \<open>GetDepth\<close> and \<open>GetItems\<close> are defined in the header, which
  is not among the sources. A bucket's list is bounded by \<open>size_\<close>; the bucket is full when
  the list holds that many pairs.
\<close>

definition IsFull :: "('k, 'v) Bucket \<Rightarrow> bool" where
  "IsFull b = (length (items b) = bsize b)"

fun Bucket_Find_list :: "('k \<times> 'v) list \<Rightarrow> 'k \<Rightarrow> 'v option" where
  "Bucket_Find_list [] key = None"
| "Bucket_Find_list ((k, v) # rest) key = (if key = k then Some v else Bucket_Find_list rest key)"

definition Bucket_Find :: "('k, 'v) Bucket \<Rightarrow> 'k \<Rightarrow> 'v option" where
  "Bucket_Find b key = Bucket_Find_list (items b) key"

fun Bucket_Remove_list :: "('k \<times> 'v) list \<Rightarrow> 'k \<Rightarrow> (bool \<times> ('k \<times> 'v) list)" where
  "Bucket_Remove_list [] key = (False, [])"
| "Bucket_Remove_list ((k, v) # rest) key =
     (if k = key then (True, rest)
      else (case Bucket_Remove_list rest key of (r, rest') \<Rightarrow> (r, (k, v) # rest')))"

definition Bucket_Remove :: "('k, 'v) Bucket \<Rightarrow> 'k \<Rightarrow> bool \<times> ('k, 'v) Bucket" where
  "Bucket_Remove b key =
     (case Bucket_Remove_list (items b) key of (r, l) \<Rightarrow> (r, b\<lparr>items := l\<rparr>))"

text \<open>
  \<open>Bucket::Insert\<close>: the first loop overwrites the value of a key that is present
  (\<open>Bucket_overwrite\<close> returns \<open>None\<close> when the key is absent); otherwise the pair is
  appended unless the bucket is full, and then the call returns false.
\<close>

fun Bucket_overwrite :: "('k \<times> 'v) list \<Rightarrow> 'k \<Rightarrow> 'v \<Rightarrow> ('k \<times> 'v) list option" where
  "Bucket_overwrite [] key value = None"
| "Bucket_overwrite ((k, v) # rest) key value =
     (if key = k then Some ((k, value) # rest)
      else map_option ((#) (k, v)) (Bucket_overwrite rest key value))"

definition Bucket_Insert :: "('k, 'v) Bucket \<Rightarrow> 'k \<Rightarrow> 'v \<Rightarrow> bool \<times> ('k, 'v) Bucket" where
  "Bucket_Insert b key value =
     (case Bucket_overwrite (items b) key value of
        Some l \<Rightarrow> (True, b\<lparr>items := l\<rparr>)
      | None \<Rightarrow>
          if \<not> IsFull b then (True, b\<lparr>items := items b @ [(key, value)]\<rparr>)
          else (False, b))"

subsection \<open>Table operations\<close>

definition IndexOf :: "('k \<Rightarrow> nat) \<Rightarrow> ('k, 'v) ExtendibleHashTable \<Rightarrow> 'k \<Rightarrow> nat" where
  "IndexOf h t key = (let mask = 2 ^ global_depth t - 1 in h key AND mask)"

text \<open>\<open>dir_[i]\<close> dereferenced: the bucket that slot \<open>i\<close> points to.\<close>

definition bucket_at :: "('k, 'v) ExtendibleHashTable \<Rightarrow> nat \<Rightarrow> ('k, 'v) Bucket" where
  "bucket_at t i = store t ! (dir t ! i)"

definition HT_Find :: "('k \<Rightarrow> nat) \<Rightarrow> ('k, 'v) ExtendibleHashTable \<Rightarrow> 'k \<Rightarrow> 'v option" where
  "HT_Find h t key = (let index = IndexOf h t key in Bucket_Find (bucket_at t index) key)"

definition HT_Remove ::
  "('k \<Rightarrow> nat) \<Rightarrow> ('k, 'v) ExtendibleHashTable \<Rightarrow> 'k \<Rightarrow> bool \<times> ('k, 'v) ExtendibleHashTable" where
  "HT_Remove h t key =
     (let index = IndexOf h t key; a = dir t ! index in
      case Bucket_Remove (store t ! a) key of
        (r, b) \<Rightarrow> (r, t\<lparr>store := (store t)[a := b]\<rparr>))"

text \<open>
  Lines 99-105 of \<open>Insert\<close>: every item of the old bucket goes to \<open>bucket1\<close> when its hash
  has the bit \<open>local_mask\<close>, to \<open>bucket0\<close> otherwise.
\<close>

fun redistribute ::
  "('k \<Rightarrow> nat) \<Rightarrow> nat \<Rightarrow> ('k \<times> 'v) list \<Rightarrow> ('k, 'v) Bucket \<times> ('k, 'v) Bucket \<Rightarrow>
   ('k, 'v) Bucket \<times> ('k, 'v) Bucket" where
  "redistribute h local_mask [] (bucket0, bucket1) = (bucket0, bucket1)"
| "redistribute h local_mask ((k, v) # rest) (bucket0, bucket1) =
     (if h k AND local_mask \<noteq> 0
      then redistribute h local_mask rest (bucket0, snd (Bucket_Insert bucket1 k v))
      else redistribute h local_mask rest (snd (Bucket_Insert bucket0 k v), bucket1))"

text \<open>
  Lines 106-112: the loop \<open>for (i = start; i < dir_.size(); i += local_mask)\<close>, where
  \<open>local_mask = 1 << local_depth\<close>; \<open>a0\<close> and \<open>a1\<close> are the addresses of the two new buckets.
\<close>

function rewire :: "nat \<Rightarrow> nat \<Rightarrow> nat \<Rightarrow> nat list \<Rightarrow> nat \<Rightarrow> nat list" where
  "rewire local_depth a0 a1 d i =
     (if i < length d
      then rewire local_depth a0 a1
             (d[i := (if i AND 2 ^ local_depth \<noteq> 0 then a1 else a0)]) (i + 2 ^ local_depth)
      else d)"
  by pat_completeness auto
termination
  by (relation "measure (\<lambda>(local_depth, a0, a1, d, i). length d - i)")
     (auto intro: diff_less_mono2)

declare rewire.simps [simp del]

text \<open>Lines 89-113: the body of \<open>if (dir_[index]->IsFull())\<close>, one split of the target bucket.\<close>

definition split_bucket ::
  "('k \<Rightarrow> nat) \<Rightarrow> ('k, 'v) ExtendibleHashTable \<Rightarrow> 'k \<Rightarrow> nat \<Rightarrow> ('k, 'v) ExtendibleHashTable" where
  "split_bucket h t key index =
     (let local_depth = depth (bucket_at t index);
          t1 = (if local_depth = global_depth t
                then t\<lparr>global_depth := global_depth t + 1, dir := dir t @ dir t\<rparr>
                else t);
          t2 = t1\<lparr>num_buckets := num_buckets t1 + 1\<rparr>;
          a0 = length (store t2);
          a1 = a0 + 1;
          local_mask = 2 ^ local_depth;
          (bucket0, bucket1) =
            redistribute h local_mask (items (bucket_at t2 index))
              (new_Bucket (bucket_size t2) (local_depth + 1),
               new_Bucket (bucket_size t2) (local_depth + 1))
      in t2\<lparr>store := store t2 @ [bucket0, bucket1],
            dir := rewire local_depth a0 a1 (dir t2) (h key AND (local_mask - 1))\<rparr>)"

text \<open>
  \<open>ExtendibleHashTable::Insert\<close> (lines 83-117); the table's \<open>Find\<close>, \<open>Remove\<close> and
  \<open>Insert\<close> carry the prefix \<open>HT\<close>, as other classes have methods of these names. The
  whole body is guarded by \<open>!Find\<close>; the split is guarded by an \<open>if\<close>, and the result of
  the final \<open>Bucket::Insert\<close> is dropped.
\<close>

definition HT_Insert ::
  "('k \<Rightarrow> nat) \<Rightarrow> ('k, 'v) ExtendibleHashTable \<Rightarrow> 'k \<Rightarrow> 'v \<Rightarrow> ('k, 'v) ExtendibleHashTable" where
  "HT_Insert h t key value =
     (let index = IndexOf h t key in
      if Bucket_Find (bucket_at t index) key = None then
        (let (t1, index1) =
               (if IsFull (bucket_at t index)
                then (let t' = split_bucket h t key index in (t', IndexOf h t' key))
                else (t, index));
             a = dir t1 ! index1
         in t1\<lparr>store := (store t1)[a := snd (Bucket_Insert (store t1 ! a) key value)]\<rparr>)
      else t)"

section \<open>LRU-K replacer (buffer/lru_k_replacer.cpp)\<close>

text \<open>
  \<open>frame_id_t\<close> and \<open>page_id_t\<close> are \<open>int\<close> in the source.

  The replacer keeps two \<open>std::list\<close>s of frame ids, \<open>list_\<close> (\<open>hlist\<close> here: the frames
  with fewer than \<open>k_\<close> accesses, in the order of their first access) and \<open>klist_\<close>, and the
  map \<open>entries_\<close> from a frame id to its entry. An entry's \<open>pos_\<close> is an iterator to the
  frame's node in one of the two lists. The model records of an iterator which list it
  points into (\<open>None\<close>: a default-constructed iterator, pointing nowhere). Erasing through
  an iterator removes the frame's node from that list; erasing from one list through an
  iterator of the other, or through an iterator whose node is gone, is undefined behaviour
  in C++ and the error \<open>Invalid_iterator\<close> here. \<open>Remove\<close> throws \<open>std::logic_error\<close>, the
  error \<open>Logic_error\<close>.

  The entry type is declared in the header, which is not among the sources. Its counter
  starts at 0 (the first \<open>RecordAccess\<close> sees \<open>count == 1\<close>); whether a new entry is
  evictable is the parameter \<open>ev0\<close> of the operations that can create one.

  \<open>curr_size_\<close> is a \<open>size_t\<close>, a 64-bit word, so that \<open>--curr_size_\<close> at 0 wraps. The
  access counter and \<open>k_\<close> are natural numbers: a counter of 64 bits does not wrap within
  any run that can be carried out.
\<close>

type_synonym frame_id_t = int
type_synonym page_id_t = int

datatype error = Logic_error | Invalid_iterator | Frame_out_of_range

datatype which_list = In_list | In_klist

record FrameEntry =
  count :: nat
  evictable :: bool
  pos :: "which_list option"

record LRUKReplacer =
  replacer_size :: nat
  lru_k :: nat
  curr_size :: "64 word"
  hlist :: "frame_id_t list"
  klist :: "frame_id_t list"
  entries :: "frame_id_t \<rightharpoonup> FrameEntry"

definition new_LRUKReplacer :: "nat \<Rightarrow> nat \<Rightarrow> LRUKReplacer" where
  "new_LRUKReplacer num_frames k =
     \<lparr>replacer_size = num_frames, lru_k = k, curr_size = 0, hlist = [], klist = [],
      entries = Map.empty\<rparr>"

text \<open>
  Modelled from the spec: the entry a first access creates, with no access counted yet
  and an iterator that points nowhere; \<open>ev0\<close> is its evictable flag.
\<close>

definition new_entry :: "bool \<Rightarrow> FrameEntry" where
  "new_entry ev0 = \<lparr>count = 0, evictable = ev0, pos = None\<rparr>"

text \<open>\<open>entries_[f]\<close>: \<open>operator[]\<close> of the map inserts a new entry when the key is missing.\<close>

definition entry_at ::
  "bool \<Rightarrow> (frame_id_t \<rightharpoonup> FrameEntry) \<Rightarrow> frame_id_t \<Rightarrow> FrameEntry \<times> (frame_id_t \<rightharpoonup> FrameEntry)" where
  "entry_at ev0 es f =
     (case es f of Some e \<Rightarrow> (e, es) | None \<Rightarrow> (new_entry ev0, es(f \<mapsto> new_entry ev0)))"

text \<open>\<open>l.erase(p)\<close> for the iterator \<open>p\<close> of frame \<open>f\<close>, where \<open>l\<close> is the list \<open>w\<close>.\<close>

definition list_erase ::
  "which_list \<Rightarrow> frame_id_t list \<Rightarrow> which_list option \<Rightarrow> frame_id_t \<Rightarrow> error + frame_id_t list" where
  "list_erase w l p f =
     (if p = Some w \<and> f \<in> set l then Inr (remove1 f l) else Inl Invalid_iterator)"

text \<open>
  The two loops of \<open>Evict\<close>: the first frame of the list, head to tail, whose entry is
  evictable. The map is threaded through, since \<open>entries_[*it]\<close> may insert.
\<close>

fun scan ::
  "bool \<Rightarrow> (frame_id_t \<rightharpoonup> FrameEntry) \<Rightarrow> frame_id_t list \<Rightarrow>
   frame_id_t option \<times> (frame_id_t \<rightharpoonup> FrameEntry)" where
  "scan ev0 es [] = (None, es)"
| "scan ev0 es (f # fs) =
     (case entry_at ev0 es f of
        (e, es') \<Rightarrow> if evictable e then (Some f, es') else scan ev0 es' fs)"

text \<open>
  \<open>Evict\<close> returns the victim (\<open>None\<close> for false). \<open>erase(it)\<close> removes the node the loop
  stopped at, which is the first node holding that frame id (\<open>scan_first\<close> below).
\<close>

definition Evict :: "bool \<Rightarrow> LRUKReplacer \<Rightarrow> frame_id_t option \<times> LRUKReplacer" where
  "Evict ev0 r =
     (case scan ev0 (entries r) (hlist r) of
        (Some f, es) \<Rightarrow>
          (Some f, r\<lparr>hlist := remove1 f (hlist r), entries := es(f := None),
                     curr_size := curr_size r - 1\<rparr>)
      | (None, es) \<Rightarrow>
          (case scan ev0 es (klist r) of
             (Some f, es') \<Rightarrow>
               (Some f, r\<lparr>klist := remove1 f (klist r), entries := es'(f := None),
                          curr_size := curr_size r - 1\<rparr>)
           | (None, es') \<Rightarrow> (None, r\<lparr>entries := es'\<rparr>)))"

definition RecordAccess :: "bool \<Rightarrow> LRUKReplacer \<Rightarrow> frame_id_t \<Rightarrow> error + LRUKReplacer" where
  "RecordAccess ev0 r f =
     (case entry_at ev0 (entries r) f of
        (e0, es0) \<Rightarrow>
          let c = count e0 + 1;
              e = e0\<lparr>count := c\<rparr>;
              es = es0(f \<mapsto> e)
          in
          if c = 1 then
            Inr (r\<lparr>curr_size := curr_size r + 1, hlist := hlist r @ [f],
                   entries := es(f \<mapsto> e\<lparr>pos := Some In_list\<rparr>)\<rparr>)
          else if c = lru_k r then
            (case list_erase In_list (hlist r) (pos e) f of
               Inl x \<Rightarrow> Inl x
             | Inr l \<Rightarrow>
                 Inr (r\<lparr>hlist := l, klist := klist r @ [f],
                        entries := es(f \<mapsto> e\<lparr>pos := Some In_klist\<rparr>)\<rparr>))
          else if c > lru_k r then
            (case list_erase In_klist (klist r) (pos e) f of
               Inl x \<Rightarrow> Inl x
             | Inr l \<Rightarrow>
                 Inr (r\<lparr>klist := l @ [f], entries := es(f \<mapsto> e\<lparr>pos := Some In_klist\<rparr>)\<rparr>))
          else Inr (r\<lparr>entries := es\<rparr>))"

definition SetEvictable :: "LRUKReplacer \<Rightarrow> frame_id_t \<Rightarrow> bool \<Rightarrow> LRUKReplacer" where
  "SetEvictable r f set_evictable =
     (case entries r f of
        None \<Rightarrow> r
      | Some e \<Rightarrow>
          r\<lparr>curr_size :=
              (if evictable e \<and> \<not> set_evictable then curr_size r - 1
               else if \<not> evictable e \<and> set_evictable then curr_size r + 1
               else curr_size r),
            entries := (entries r)(f \<mapsto> e\<lparr>evictable := set_evictable\<rparr>)\<rparr>)"

definition LRUK_Remove :: "LRUKReplacer \<Rightarrow> frame_id_t \<Rightarrow> error + LRUKReplacer" where
  "LRUK_Remove r f =
     (case entries r f of
        None \<Rightarrow> Inr r
      | Some e \<Rightarrow>
          if \<not> evictable e then Inl Logic_error
          else if count e < lru_k r then
            (case list_erase In_list (hlist r) (pos e) f of
               Inl x \<Rightarrow> Inl x
             | Inr l \<Rightarrow>
                 Inr (r\<lparr>hlist := l, curr_size := curr_size r - 1,
                        entries := (entries r)(f := None)\<rparr>))
          else
            (case list_erase In_klist (klist r) (pos e) f of
               Inl x \<Rightarrow> Inl x
             | Inr l \<Rightarrow>
                 Inr (r\<lparr>klist := l, curr_size := curr_size r - 1,
                        entries := (entries r)(f := None)\<rparr>)))"

definition Size :: "LRUKReplacer \<Rightarrow> 64 word" where
  "Size r = curr_size r"

subsection \<open>Sequences of calls\<close>

text \<open>
  A call of the replacer's interface, and a run of calls from a given state. An exception
  of \<open>Remove\<close> is thrown before anything is changed, so the run goes on from the same state;
  undefined behaviour ends it.
\<close>

datatype call =
  Call_RecordAccess frame_id_t
| Call_SetEvictable frame_id_t bool
| Call_Evict
| Call_Remove frame_id_t

fun step :: "bool \<Rightarrow> LRUKReplacer \<Rightarrow> call \<Rightarrow> error + LRUKReplacer" where
  "step ev0 r (Call_RecordAccess f) = RecordAccess ev0 r f"
| "step ev0 r (Call_SetEvictable f b) = Inr (SetEvictable r f b)"
| "step ev0 r Call_Evict = Inr (snd (Evict ev0 r))"
| "step ev0 r (Call_Remove f) = LRUK_Remove r f"

fun run :: "bool \<Rightarrow> LRUKReplacer \<Rightarrow> call list \<Rightarrow> error + LRUKReplacer" where
  "run ev0 r [] = Inr r"
| "run ev0 r (c # cs) =
     (case step ev0 r c of
        Inr r' \<Rightarrow> run ev0 r' cs
      | Inl Logic_error \<Rightarrow> run ev0 r cs
      | Inl x \<Rightarrow> Inl x)"

text \<open>
  The times of the accesses, kept beside the replacer and read by none of its operations:
  every call advances a clock; a \<open>RecordAccess\<close> stamps the frame's last access, and its
  first access when the frame is not tracked. \<open>run_timed\<close> is \<open>run\<close> with these times.
\<close>

record access_times =
  first_access :: "frame_id_t \<Rightarrow> nat"
  last_access :: "frame_id_t \<Rightarrow> nat"
  clock :: nat

definition tick :: "LRUKReplacer \<Rightarrow> access_times \<Rightarrow> call \<Rightarrow> access_times" where
  "tick r g c =
     (case c of
        Call_RecordAccess f \<Rightarrow>
          g\<lparr>first_access :=
               (if entries r f = None then (first_access g)(f := clock g) else first_access g),
            last_access := (last_access g)(f := clock g),
            clock := clock g + 1\<rparr>
      | _ \<Rightarrow> g\<lparr>clock := clock g + 1\<rparr>)"


definition no_times :: access_times where
  "no_times = \<lparr>first_access = (\<lambda>f. 0), last_access = (\<lambda>f. 0), clock = 0\<rparr>"

text \<open>A frame that is tracked and whose flag is set, and the set of these frames.\<close>

definition is_evictable :: "LRUKReplacer \<Rightarrow> frame_id_t \<Rightarrow> bool" where
  "is_evictable r f = (case entries r f of Some e \<Rightarrow> evictable e | None \<Rightarrow> False)"

definition evictable_frames :: "LRUKReplacer \<Rightarrow> frame_id_t set" where
  "evictable_frames r = {f. is_evictable r f}"

section \<open>Buffer pool manager (buffer/buffer_pool_manager.cpp)\<close>

text \<open>
  A frame is a \<open>Page\<close>: the id of the page it holds, the pin count, the dirty flag and the
  bytes. The disk manager is outside the sources; it is modelled by what the buffer pool
  can observe of it: the bytes stored under each page id, and the log of the calls made
  to it, in order.

  The page table is the extendible hash table above, from page ids to frame ids, with
  its hash function \<open>h\<close>; the replacer is the LRU-K replacer above.
\<close>

record Page =
  page_id :: page_id_t
  pin_count :: int
  is_dirty :: bool
  data :: "8 word list"

datatype disk_call =
  Write page_id_t "8 word list"
| Read page_id_t
| Deallocate page_id_t

record DiskManager =
  contents :: "page_id_t \<Rightarrow> 8 word list"
  disk_log :: "disk_call list"

record BufferPoolManager =
  pool_size :: nat
  pages :: "Page list"
  page_table :: "(page_id_t, frame_id_t) ExtendibleHashTable"
  replacer :: LRUKReplacer
  free_list :: "frame_id_t list"
  next_page_id :: page_id_t
  disk :: DiskManager

definition INVALID_PAGE_ID :: page_id_t where
  "INVALID_PAGE_ID = - 1"

definition WritePage :: "DiskManager \<Rightarrow> page_id_t \<Rightarrow> 8 word list \<Rightarrow> DiskManager" where
  "WritePage d p bytes =
     d\<lparr>contents := (contents d)(p := bytes), disk_log := disk_log d @ [Write p bytes]\<rparr>"

definition ReadPage :: "DiskManager \<Rightarrow> page_id_t \<Rightarrow> 8 word list \<times> DiskManager" where
  "ReadPage d p = (contents d p, d\<lparr>disk_log := disk_log d @ [Read p]\<rparr>)"

text \<open>
  Modelled from the spec: \<open>Page::ResetMemory\<close> is declared in a header that is not among
  the sources; the spec says the frame's memory is zeroed.
\<close>

definition ResetMemory :: "Page \<Rightarrow> Page" where
  "ResetMemory p = p\<lparr>data := replicate (length (data p)) 0\<rparr>"

text \<open>\<open>pages_ + frame_id\<close>, for a frame id within the array.\<close>

definition valid_frame :: "BufferPoolManager \<Rightarrow> frame_id_t \<Rightarrow> bool" where
  "valid_frame b f = (0 \<le> f \<and> nat f < length (pages b))"

definition page_of :: "BufferPoolManager \<Rightarrow> frame_id_t \<Rightarrow> Page" where
  "page_of b f = pages b ! nat f"

definition set_page :: "BufferPoolManager \<Rightarrow> frame_id_t \<Rightarrow> Page \<Rightarrow> BufferPoolManager" where
  "set_page b f p = b\<lparr>pages := (pages b)[nat f := p]\<rparr>"

text \<open>
  The constructor. The size of a page's buffer and the bucket size of the page table are
  constants of headers that are not among the sources, so they are parameters here.
\<close>

definition new_BufferPoolManager ::
  "nat \<Rightarrow> nat \<Rightarrow> nat \<Rightarrow> nat \<Rightarrow> DiskManager \<Rightarrow> BufferPoolManager" where
  "new_BufferPoolManager n replacer_k bucket_sz page_sz d =
     \<lparr>pool_size = n,
      pages = replicate n \<lparr>page_id = INVALID_PAGE_ID, pin_count = 0, is_dirty = False,
                            data = replicate page_sz 0\<rparr>,
      page_table = new_ExtendibleHashTable bucket_sz,
      replacer = new_LRUKReplacer n replacer_k,
      free_list = map int [0..<n],
      next_page_id = 0,
      disk = d\<rparr>"

text \<open>
  The \<open>else if (replacer_->Evict(&frame_id))\<close> branch, which \<open>NewPage\<close> (lines 55-62) and
  \<open>FetchPage\<close> (lines 97-104) both carry: write the victim if it is dirty, clear its
  memory, remove its page id from the page table.
\<close>

definition evict_victim ::
  "(page_id_t \<Rightarrow> nat) \<Rightarrow> BufferPoolManager \<Rightarrow> frame_id_t \<Rightarrow> BufferPoolManager" where
  "evict_victim h b f =
     (let page = page_of b f;
          (page1, d1) =
            (if is_dirty page
             then (page\<lparr>is_dirty := False\<rparr>, WritePage (disk b) (page_id page) (data page))
             else (page, disk b));
          page2 = ResetMemory page1;
          b1 = (set_page b f page2)\<lparr>disk := d1\<rparr>
      in b1\<lparr>page_table := snd (HT_Remove h (page_table b1) (page_id page2))\<rparr>)"

text \<open>
  Step 1 of \<open>NewPage\<close> and step 2 of \<open>FetchPage\<close>: a frame from the front of the free list,
  else a victim of the replacer, else none.
\<close>

definition get_frame ::
  "(page_id_t \<Rightarrow> nat) \<Rightarrow> bool \<Rightarrow> BufferPoolManager \<Rightarrow> frame_id_t option \<times> BufferPoolManager" where
  "get_frame h ev0 b =
     (case free_list b of
        f # rest \<Rightarrow> (Some f, b\<lparr>free_list := rest\<rparr>)
      | [] \<Rightarrow>
          (case Evict ev0 (replacer b) of
             (Some f, r) \<Rightarrow> (Some f, evict_victim h (b\<lparr>replacer := r\<rparr>) f)
           | (None, r) \<Rightarrow> (None, b\<lparr>replacer := r\<rparr>)))"

text \<open>
  \<open>NewPage\<close> returns the new page id and the frame (\<open>None\<close> for \<open>nullptr\<close>), or the error of
  the replacer's \<open>RecordAccess\<close>.
\<close>

definition NewPage ::
  "(page_id_t \<Rightarrow> nat) \<Rightarrow> bool \<Rightarrow> BufferPoolManager \<Rightarrow>
   error + ((page_id_t \<times> frame_id_t) option \<times> BufferPoolManager)" where
  "NewPage h ev0 b =
     (case get_frame h ev0 b of
        (None, b') \<Rightarrow> Inr (None, b')
      | (Some f, b1) \<Rightarrow>
          let p = next_page_id b1;
              b2 = b1\<lparr>next_page_id := p + 1\<rparr>;
              page = page_of b2 f;
              b3 = set_page b2 f (page\<lparr>page_id := p, pin_count := pin_count page + 1\<rparr>)
          in
          (case RecordAccess ev0 (replacer b3) f of
             Inl x \<Rightarrow> Inl x
           | Inr r \<Rightarrow>
               Inr (Some (p, f),
                    b3\<lparr>replacer := SetEvictable r f False,
                       page_table := HT_Insert h (page_table b3) p f\<rparr>)))"

definition FetchPage ::
  "(page_id_t \<Rightarrow> nat) \<Rightarrow> bool \<Rightarrow> BufferPoolManager \<Rightarrow> page_id_t \<Rightarrow>
   error + (frame_id_t option \<times> BufferPoolManager)" where
  "FetchPage h ev0 b p =
     (case HT_Find h (page_table b) p of
        Some f \<Rightarrow>
          (let page = page_of b f;
               b1 = set_page b f (page\<lparr>pin_count := pin_count page + 1\<rparr>)
           in case RecordAccess ev0 (replacer b1) f of
                Inl x \<Rightarrow> Inl x
              | Inr r \<Rightarrow> Inr (Some f, b1\<lparr>replacer := SetEvictable r f False\<rparr>))
      | None \<Rightarrow>
          (case get_frame h ev0 b of
             (None, b') \<Rightarrow> Inr (None, b')
           | (Some f, b1) \<Rightarrow>
               let page = page_of b1 f;
                   b2 = set_page b1 f (page\<lparr>page_id := p, pin_count := pin_count page + 1\<rparr>)
               in
               (case RecordAccess ev0 (replacer b2) f of
                  Inl x \<Rightarrow> Inl x
                | Inr r \<Rightarrow>
                    let b3 = b2\<lparr>replacer := SetEvictable r f False\<rparr>;
                        (bytes, d) = ReadPage (disk b3) p;
                        b4 = (set_page b3 f ((page_of b3 f)\<lparr>data := bytes\<rparr>))\<lparr>disk := d\<rparr>
                    in Inr (Some f, b4\<lparr>page_table := HT_Insert h (page_table b4) p f\<rparr>))))"

definition UnpinPage ::
  "(page_id_t \<Rightarrow> nat) \<Rightarrow> BufferPoolManager \<Rightarrow> page_id_t \<Rightarrow> bool \<Rightarrow> bool \<times> BufferPoolManager" where
  "UnpinPage h b p dirty =
     (case HT_Find h (page_table b) p of
        Some f \<Rightarrow>
          (let page = page_of b f in
           if pin_count page \<le> 0 then (False, b)
           else
             let page1 = page\<lparr>pin_count := pin_count page - 1\<rparr> in
             if pin_count page1 = 0
             then (True,
                   (set_page b f (page1\<lparr>is_dirty := (is_dirty page1 \<or> dirty)\<rparr>))
                     \<lparr>replacer := SetEvictable (replacer b) f True\<rparr>)
             else (True, set_page b f page1))
      | None \<Rightarrow> (False, b))"

definition FlushPage ::
  "(page_id_t \<Rightarrow> nat) \<Rightarrow> BufferPoolManager \<Rightarrow> page_id_t \<Rightarrow> bool \<times> BufferPoolManager" where
  "FlushPage h b p =
     (case HT_Find h (page_table b) p of
        Some f \<Rightarrow>
          (let page = page_of b f;
               d = WritePage (disk b) p (data page)
           in (True, (set_page b f (page\<lparr>is_dirty := False\<rparr>))\<lparr>disk := d\<rparr>))
      | None \<Rightarrow> (False, b))"

text \<open>
  \<open>DeletePage\<close> (lines 163-184). The early return is taken when the page IS found. When it
  is not found, \<open>frame_id\<close> still holds its initial value -1, and the rest of the body
  works on \<open>pages_ + frame_id\<close>, a frame outside the array: the error \<open>Frame_out_of_range\<close>.
  \<open>DeallocatePage\<close> is logged as a call to the disk manager, as the spec describes it.
\<close>

definition DeletePage_frame ::
  "(page_id_t \<Rightarrow> nat) \<Rightarrow> BufferPoolManager \<Rightarrow> page_id_t \<Rightarrow> frame_id_t \<Rightarrow>
   error + (bool \<times> BufferPoolManager)" where
  "DeletePage_frame h b p f =
     (if \<not> valid_frame b f then Inl Frame_out_of_range
      else
        let page = page_of b f in
        if pin_count page \<noteq> 0 then Inr (False, b)
        else
          let (page1, d1) =
                (if is_dirty page
                 then (page\<lparr>is_dirty := False\<rparr>, WritePage (disk b) p (data page))
                 else (page, disk b));
              pt = snd (HT_Remove h (page_table b) (page_id page1));
              page2 = (ResetMemory page1)\<lparr>page_id := INVALID_PAGE_ID\<rparr>;
              d2 = d1\<lparr>disk_log := disk_log d1 @ [Deallocate p]\<rparr>
          in Inr (True,
                  (set_page b f page2)
                    \<lparr>page_table := pt, free_list := free_list b @ [f], disk := d2\<rparr>))"

definition DeletePage ::
  "(page_id_t \<Rightarrow> nat) \<Rightarrow> BufferPoolManager \<Rightarrow> page_id_t \<Rightarrow> error + (bool \<times> BufferPoolManager)" where
  "DeletePage h b p =
     (case HT_Find h (page_table b) p of
        Some f \<Rightarrow> Inr (True, b)
      | None \<Rightarrow> DeletePage_frame h b p (- 1))"

section \<open>B+ tree pages (storage/page/b_plus_tree_leaf_page.cpp, b_plus_tree_internal_page.cpp)\<close>

text \<open>
  Both page classes derive from \<open>BPlusTreePage\<close>. Modelled from the spec: its header is
  not among the sources; its getters and setters (\<open>GetSize\<close>, \<open>SetSize\<close>, \<open>IncreaseSize\<close>,
  \<open>SetPageType\<close> and the others) read and write the fields of the common header below. \<open>array_\<close> is a C array inside
  the page, indexed by \<open>int\<close>: a function from indices to pairs, so that the slots at and
  beyond \<open>GetSize()\<close> hold whatever the page's memory holds, as in the source.

  The key type, the comparator (\<open>cmp\<close>, whose result is negative, zero or positive) and
  the value-initialised pair \<open>MappingType{}\<close> (\<open>dflt\<close>) are parameters.
\<close>

datatype IndexPageType = INVALID_INDEX_PAGE | LEAF_PAGE | INTERNAL_PAGE

record BPlusTreePage =
  page_type :: IndexPageType
  node_size :: int
  max_size :: int
  parent_page_id :: page_id_t
  node_page_id :: page_id_t

record ('k, 'v) BPlusTreeLeafPage = BPlusTreePage +
  next_leaf_page_id :: page_id_t
  leaf_array :: "int \<Rightarrow> 'k \<times> 'v"

record 'k BPlusTreeInternalPage = BPlusTreePage +
  internal_array :: "int \<Rightarrow> 'k \<times> page_id_t"

subsection \<open>Leaf page\<close>

definition Leaf_Init ::
  "('k, 'v) BPlusTreeLeafPage \<Rightarrow> page_id_t \<Rightarrow> page_id_t \<Rightarrow> int \<Rightarrow> ('k, 'v) BPlusTreeLeafPage" where
  "Leaf_Init p pid parent_id max_sz =
     p\<lparr>page_type := LEAF_PAGE, max_size := max_sz, parent_page_id := parent_id,
       node_page_id := pid, node_size := 0, next_leaf_page_id := INVALID_PAGE_ID\<rparr>"

definition Leaf_KeyAt :: "('k, 'v) BPlusTreeLeafPage \<Rightarrow> int \<Rightarrow> 'k" where
  "Leaf_KeyAt p index = fst (leaf_array p index)"

definition Leaf_ValueAt :: "('k, 'v) BPlusTreeLeafPage \<Rightarrow> int \<Rightarrow> 'v" where
  "Leaf_ValueAt p index = snd (leaf_array p index)"

text \<open>The binary search of \<open>KeyIndex\<close> (lines 64-74): the loop on \<open>l\<close>, \<open>r\<close> and \<open>ret\<close>.\<close>

function KeyIndex_loop ::
  "('k \<Rightarrow> 'k \<Rightarrow> int) \<Rightarrow> ('k, 'v) BPlusTreeLeafPage \<Rightarrow> 'k \<Rightarrow> int \<Rightarrow> int \<Rightarrow> int \<Rightarrow> int" where
  "KeyIndex_loop cmp p key l r ret =
     (if l \<le> r then
        (let mid = (r - l) div 2 + l in
         if cmp (Leaf_KeyAt p mid) key \<le> 0
         then KeyIndex_loop cmp p key (mid + 1) r mid
         else KeyIndex_loop cmp p key l (mid - 1) ret)
      else ret)"
  by pat_completeness auto
termination
  by (relation "measure (\<lambda>(cmp, p, key, l, r, ret). nat (r - l + 1))") auto

declare KeyIndex_loop.simps [simp del]

definition KeyIndex :: "('k \<Rightarrow> 'k \<Rightarrow> int) \<Rightarrow> ('k, 'v) BPlusTreeLeafPage \<Rightarrow> 'k \<Rightarrow> int" where
  "KeyIndex cmp p key = KeyIndex_loop cmp p key 0 (node_size p - 1) 0"

text \<open>
  The loop \<open>for (i = GetSize(); i > insert_index; --i) array_[i] = array_[i-1]\<close>, which
  both \<open>Insert\<close> of the leaf and \<open>InsertAfterNode\<close> of the internal page carry.
\<close>

function shift_right :: "(int \<Rightarrow> 'a) \<Rightarrow> int \<Rightarrow> int \<Rightarrow> (int \<Rightarrow> 'a)" where
  "shift_right a i insert_index =
     (if i > insert_index then shift_right (a(i := a (i - 1))) (i - 1) insert_index else a)"
  by pat_completeness auto
termination
  by (relation "measure (\<lambda>(a, i, insert_index). nat (i - insert_index))") auto

declare shift_right.simps [simp del]

text \<open>
  \<open>Insert\<close> of the leaf (lines 77-90) returns the size after the call. The slot at
  \<open>insert_index\<close> receives \<open>MappingType{}\<close>; the arguments \<open>key\<close> and \<open>value\<close> are not stored.
\<close>

definition Leaf_Insert ::
  "('k \<Rightarrow> 'k \<Rightarrow> int) \<Rightarrow> 'k \<times> 'v \<Rightarrow> ('k, 'v) BPlusTreeLeafPage \<Rightarrow> 'k \<Rightarrow> 'v \<Rightarrow>
   int \<times> ('k, 'v) BPlusTreeLeafPage" where
  "Leaf_Insert cmp dflt p key value =
     (let insert_index = KeyIndex cmp p key in
      if cmp (Leaf_KeyAt p insert_index) key = 0 then (node_size p, p)
      else
        let a = shift_right (leaf_array p) (node_size p) insert_index;
            p' = p\<lparr>leaf_array := a(insert_index := dflt), node_size := node_size p + 1\<rparr>
        in (node_size p', p'))"

definition Leaf_Lookup ::
  "('k \<Rightarrow> 'k \<Rightarrow> int) \<Rightarrow> ('k, 'v) BPlusTreeLeafPage \<Rightarrow> 'k \<Rightarrow> 'v option" where
  "Leaf_Lookup cmp p key =
     (let index = KeyIndex cmp p key in
      if index = node_size p \<or> cmp (Leaf_KeyAt p index) key \<noteq> 0 then None
      else Some (Leaf_ValueAt p index))"

subsection \<open>Internal page\<close>

definition Internal_Init ::
  "'k BPlusTreeInternalPage \<Rightarrow> page_id_t \<Rightarrow> page_id_t \<Rightarrow> int \<Rightarrow> 'k BPlusTreeInternalPage" where
  "Internal_Init p pid parent_id max_sz =
     p\<lparr>max_size := max_sz, node_size := 0, parent_page_id := parent_id, node_page_id := pid,
       page_type := INTERNAL_PAGE\<rparr>"

definition Internal_KeyAt :: "'k BPlusTreeInternalPage \<Rightarrow> int \<Rightarrow> 'k" where
  "Internal_KeyAt p index = fst (internal_array p index)"

definition Internal_ValueAt :: "'k BPlusTreeInternalPage \<Rightarrow> int \<Rightarrow> page_id_t" where
  "Internal_ValueAt p index = snd (internal_array p index)"

function Internal_Lookup_loop ::
  "('k \<Rightarrow> 'k \<Rightarrow> int) \<Rightarrow> 'k BPlusTreeInternalPage \<Rightarrow> 'k \<Rightarrow> int \<Rightarrow> int \<Rightarrow> int \<Rightarrow> int" where
  "Internal_Lookup_loop cmp p key l r ret =
     (if l \<le> r then
        (let mid = (r - l) div 2 + l in
         if cmp (Internal_KeyAt p mid) key \<le> 0
         then Internal_Lookup_loop cmp p key (mid + 1) r mid
         else Internal_Lookup_loop cmp p key l (mid - 1) ret)
      else ret)"
  by pat_completeness auto
termination
  by (relation "measure (\<lambda>(cmp, p, key, l, r, ret). nat (r - l + 1))") auto

declare Internal_Lookup_loop.simps [simp del]

definition Internal_Lookup ::
  "('k \<Rightarrow> 'k \<Rightarrow> int) \<Rightarrow> 'k BPlusTreeInternalPage \<Rightarrow> 'k \<Rightarrow> page_id_t" where
  "Internal_Lookup cmp p key =
     Internal_ValueAt p (Internal_Lookup_loop cmp p key 1 (node_size p - 1) 0)"

definition PopulateNewRoot ::
  "'k BPlusTreeInternalPage \<Rightarrow> page_id_t \<Rightarrow> 'k \<Rightarrow> page_id_t \<Rightarrow> 'k BPlusTreeInternalPage" where
  "PopulateNewRoot p old_value key new_value =
     (let a = internal_array p;
          a0 = a(0 := (fst (a 0), old_value));
          a1 = a0(1 := (key, new_value))
      in p\<lparr>internal_array := a1, node_size := 2\<rparr>)"

text \<open>\<open>ValueIndex\<close> (lines 79-85): the first slot whose child is \<open>value\<close>, or -1.\<close>

function ValueIndex_loop :: "'k BPlusTreeInternalPage \<Rightarrow> page_id_t \<Rightarrow> int \<Rightarrow> int" where
  "ValueIndex_loop p value i =
     (if i < node_size p
      then (if Internal_ValueAt p i = value then i else ValueIndex_loop p value (i + 1))
      else - 1)"
  by pat_completeness auto
termination
  by (relation "measure (\<lambda>(p, value, i). nat (node_size p - i))") auto

declare ValueIndex_loop.simps [simp del]

definition ValueIndex :: "'k BPlusTreeInternalPage \<Rightarrow> page_id_t \<Rightarrow> int" where
  "ValueIndex p value = ValueIndex_loop p value 0"

definition InsertAfterNode ::
  "'k BPlusTreeInternalPage \<Rightarrow> page_id_t \<Rightarrow> 'k \<Rightarrow> page_id_t \<Rightarrow> 'k BPlusTreeInternalPage" where
  "InsertAfterNode p old_value key new_value =
     (let insert_index = ValueIndex p old_value + 1;
          a = shift_right (internal_array p) (node_size p) insert_index
      in p\<lparr>internal_array := a(insert_index := (key, new_value)),
           node_size := node_size p + 1\<rparr>)"

section \<open>B+ tree (storage/index/b_plus_tree.cpp)\<close>

text \<open>
  The tree reaches its pages through the buffer pool and casts a page's bytes to a leaf
  or an internal page. Here the pages of the tree are a map from page ids to typed nodes:
  the buffer pool is taken to hold every page of the tree, and pin counts and the header
  page are left out. \<open>new_page_id\<close> is the id the next \<open>NewPage\<close> returns, and \<open>blank\<close> is how
  the memory of a new page reads as a leaf.
\<close>

datatype ('k, 'v) node =
  LeafNode "('k, 'v) BPlusTreeLeafPage"
| InternalNode "'k BPlusTreeInternalPage"

record ('k, 'v) BPlusTree =
  root_page_id :: page_id_t
  leaf_max_size :: int
  internal_max_size :: int
  tree_pages :: "page_id_t \<rightharpoonup> ('k, 'v) node"
  new_page_id :: page_id_t

definition new_BPlusTree :: "int \<Rightarrow> int \<Rightarrow> page_id_t \<Rightarrow> ('k, 'v) BPlusTree" where
  "new_BPlusTree leaf_max internal_max first_id =
     \<lparr>root_page_id = INVALID_PAGE_ID, leaf_max_size = leaf_max,
      internal_max_size = internal_max, tree_pages = Map.empty, new_page_id = first_id\<rparr>"

definition IsEmpty :: "('k, 'v) BPlusTree \<Rightarrow> bool" where
  "IsEmpty t = (root_page_id t = INVALID_PAGE_ID)"

text \<open>
  The loop of \<open>FindLeaf\<close> (lines 62-86, with neither \<open>leftMost\<close> nor \<open>rightMost\<close>). Its state
  is \<open>page\<close> and \<open>node\<close>. Each round fetches the child that \<open>node\<close> names, and takes as the
  next \<open>node\<close> the data of the current \<open>page\<close> (line 74 reads \<open>page\<close>, not \<open>child_page\<close>), so
  \<open>node\<close> runs one round behind \<open>page\<close>. \<open>None\<close>: a page is missing, or the loop does not end.
\<close>

partial_function (option) FindLeaf_loop ::
  "('k \<Rightarrow> 'k \<Rightarrow> int) \<Rightarrow> ('k, 'v) BPlusTree \<Rightarrow> 'k \<Rightarrow> page_id_t \<Rightarrow> ('k, 'v) node \<Rightarrow>
   page_id_t option" where
  "FindLeaf_loop cmp t key page node =
     (case node of
        LeafNode l \<Rightarrow> Some page
      | InternalNode i_node \<Rightarrow>
          (let child_node_page_id = Internal_Lookup cmp i_node key in
           case tree_pages t child_node_page_id of
             None \<Rightarrow> None
           | Some child \<Rightarrow>
               (case tree_pages t page of
                  None \<Rightarrow> None
                | Some child_node \<Rightarrow> FindLeaf_loop cmp t key child_node_page_id child_node)))"

definition FindLeaf ::
  "('k \<Rightarrow> 'k \<Rightarrow> int) \<Rightarrow> ('k, 'v) BPlusTree \<Rightarrow> 'k \<Rightarrow> page_id_t option" where
  "FindLeaf cmp t key =
     (case tree_pages t (root_page_id t) of
        None \<Rightarrow> None
      | Some node \<Rightarrow> FindLeaf_loop cmp t key (root_page_id t) node)"

text \<open>
  \<open>GetValue\<close> (lines 33-49): the values appended to \<open>result\<close> when it returns true
  (\<open>Some [value]\<close>), \<open>Some []\<close> when it returns false, \<open>None\<close> when \<open>FindLeaf\<close> gives no leaf.
\<close>

definition GetValue ::
  "('k \<Rightarrow> 'k \<Rightarrow> int) \<Rightarrow> ('k, 'v) BPlusTree \<Rightarrow> 'k \<Rightarrow> (bool \<times> 'v list) option" where
  "GetValue cmp t key =
     (case FindLeaf cmp t key of
        None \<Rightarrow> None
      | Some leaf_page \<Rightarrow>
          (case tree_pages t leaf_page of
             Some (LeafNode leaf_node) \<Rightarrow>
               (case Leaf_Lookup cmp leaf_node key of
                  None \<Rightarrow> Some (False, [])
                | Some value \<Rightarrow> Some (True, [value]))
           | _ \<Rightarrow> None))"

text \<open>
  \<open>StartNewTree\<close> (lines 112-128), which \<open>Insert\<close> runs on an empty tree before it returns
  true (lines 104-107).
\<close>

definition StartNewTree ::
  "('k \<Rightarrow> 'k \<Rightarrow> int) \<Rightarrow> 'k \<times> 'v \<Rightarrow> ('k, 'v) BPlusTreeLeafPage \<Rightarrow> ('k, 'v) BPlusTree \<Rightarrow>
   'k \<Rightarrow> 'v \<Rightarrow> ('k, 'v) BPlusTree" where
  "StartNewTree cmp dflt blank t key value =
     (let root = new_page_id t;
          t1 = t\<lparr>root_page_id := root, new_page_id := root + 1\<rparr>;
          root_node = Leaf_Init blank root INVALID_PAGE_ID (leaf_max_size t1);
          root_node' = snd (Leaf_Insert cmp dflt root_node key value)
      in t1\<lparr>tree_pages := (tree_pages t1)(root \<mapsto> LeafNode root_node')\<rparr>)"

section \<open>Notions used in the statements\<close>





subsection \<open>Invariants of the replacer\<close>

text \<open>
  What every state of the replacer satisfies that a run of calls reaches from the
  constructor (proved below): no frame is twice in the lists; the tracked frames are the
  frames in the lists; every entry has been accessed, and its iterator points into the
  list that holds its frame.
\<close>

definition inv_lists ::
  "frame_id_t list \<Rightarrow> frame_id_t list \<Rightarrow> (frame_id_t \<rightharpoonup> FrameEntry) \<Rightarrow> bool" where
  "inv_lists h k es \<longleftrightarrow>
     distinct (h @ k) \<and>
     (\<forall>f. es f \<noteq> None \<longleftrightarrow> f \<in> set h \<or> f \<in> set k) \<and>
     (\<forall>f e. es f = Some e \<longrightarrow>
        1 \<le> count e \<and>
        (pos e = Some In_list \<longleftrightarrow> f \<in> set h) \<and>
        (pos e = Some In_klist \<longleftrightarrow> f \<in> set k))"

definition inv_struct :: "LRUKReplacer \<Rightarrow> bool" where
  "inv_struct r = inv_lists (hlist r) (klist r) (entries r)"

text \<open>For k of at least 2: the frames of \<open>list_\<close> are those with fewer than k accesses.\<close>

definition inv_k :: "LRUKReplacer \<Rightarrow> bool" where
  "inv_k r \<longleftrightarrow>
     (\<forall>f e. entries r f = Some e \<longrightarrow> (count e < lru_k r \<longleftrightarrow> pos e = Some In_list))"

text \<open>\<open>curr_size_\<close> is the number of evictable frames, as a 64-bit word.\<close>

definition inv_size :: "LRUKReplacer \<Rightarrow> bool" where
  "inv_size r \<longleftrightarrow> curr_size r = of_nat (card (evictable_frames r))"


subsection \<open>Concrete inputs\<close>

text \<open>
  \<open>std::hash<int>\<close> of libstdc++ converts the \<open>int\<close> to \<open>size_t\<close>: a key that is not negative
  hashes to itself, a negative key \<open>p\<close> to \<open>2^64 + p\<close>.
\<close>

definition int_hash :: "int \<Rightarrow> nat" where
  "int_hash p = nat (p mod 2 ^ 64)"

text \<open>A comparator on \<open>int\<close> keys.\<close>

definition int_cmp :: "int \<Rightarrow> int \<Rightarrow> int" where
  "int_cmp a b = (if a < b then - 1 else if a = b then 0 else 1)"

text \<open>A disk whose pages are two bytes long and hold zeros, and a pool of one frame on it.\<close>

definition zero_disk :: DiskManager where
  "zero_disk = \<lparr>contents = (\<lambda>p. [0, 0]), disk_log = []\<rparr>"

definition pool1 :: BufferPoolManager where
  "pool1 = new_BufferPoolManager 1 2 4 2 zero_disk"

text \<open>
  The pool after \<open>NewPage\<close> (page 0 in frame 0, pinned once); after a \<open>FetchPage\<close> of page 0
  on top (pinned twice); and after \<open>NewPage\<close>, a write of the bytes 1, 2 into the page by
  its holder, and \<open>UnpinPage(0, true)\<close>.
\<close>

definition pool1_new :: BufferPoolManager where
  "pool1_new = snd (projr (NewPage int_hash True pool1))"

definition pool1_pinned_twice :: BufferPoolManager where
  "pool1_pinned_twice = snd (projr (FetchPage int_hash True pool1_new 0))"

definition pool1_dirty :: BufferPoolManager where
  "pool1_dirty =
     snd (UnpinPage int_hash
            (set_page pool1_new 0 ((page_of pool1_new 0)\<lparr>data := [1, 2]\<rparr>)) 0 True)"

text \<open>A page's memory read as a leaf and as an internal page with the children 10 and 20.\<close>

definition blank_leaf :: "(int, int) BPlusTreeLeafPage" where
  "blank_leaf =
     \<lparr>page_type = INVALID_INDEX_PAGE, node_size = 0, max_size = 0, parent_page_id = 0,
      node_page_id = 0, next_leaf_page_id = 0, leaf_array = (\<lambda>i. (0, 0))\<rparr>"

definition two_children :: "int BPlusTreeInternalPage" where
  "two_children =
     \<lparr>page_type = INTERNAL_PAGE, node_size = 2, max_size = 4, parent_page_id = - 1,
      node_page_id = 3,
      internal_array = (\<lambda>i. if i = 0 then (0, 10) else if i = 1 then (15, 20) else (0, 0))\<rparr>"

text \<open>Calls on a replacer with k = 2 that leave frames 2, 3 in \<open>list_\<close> and frame 1 in \<open>klist_\<close>.\<close>

definition calls0 :: "call list" where
  "calls0 =
     [Call_RecordAccess 1, Call_RecordAccess 2, Call_RecordAccess 3, Call_RecordAccess 1,
      Call_SetEvictable 1 True, Call_SetEvictable 2 False, Call_SetEvictable 3 True]"

section \<open>Properties of the hash table\<close>

lemmas ht_defs =
  HT_Insert_def HT_Find_def HT_Remove_def IndexOf_def bucket_at_def new_ExtendibleHashTable_def
  new_Bucket_def Bucket_Find_def Bucket_Remove_def IsFull_def Bucket_Insert_def split_bucket_def
  rewire.simps int_hash_def

lemma split_bucket_num_buckets:
  "num_buckets (split_bucket h t key index) = num_buckets t + 1"
  by (simp add: split_bucket_def Let_def split: prod.splits)

lemma split_bucket_global_depth:
  "global_depth (split_bucket h t key index) =
     (if depth (bucket_at t index) = global_depth t then global_depth t + 1 else global_depth t)"
  by (simp add: split_bucket_def Let_def split: prod.splits)

lemma split_bucket_dir_length:
  "length (dir (split_bucket h t key index)) =
     (if depth (bucket_at t index) = global_depth t then 2 * length (dir t) else length (dir t))"
proof -
  have len: "length (rewire ld a0 a1 d i) = length d" for ld a0 a1 d i
    by (induction ld a0 a1 d i rule: rewire.induct) (subst rewire.simps, simp)
  show ?thesis
    by (simp add: split_bucket_def Let_def len split: prod.splits)
qed

lemma split_bucket_store_length:
  "length (store (split_bucket h t key index)) = length (store t) + 2"
  by (simp add: split_bucket_def Let_def split: prod.splits)

text \<open>
  C9. A single call of \<open>Insert\<close> splits at most once, whatever the table and the arguments:
  the bucket count and the global depth each stay or grow by one, the directory keeps its
  length or doubles once, and at most the two buckets of one split are allocated.
\<close>

theorem HT_Insert_at_most_one_split:
  "(num_buckets (HT_Insert h t key value) = num_buckets t \<or>
    num_buckets (HT_Insert h t key value) = num_buckets t + 1) \<and>
   (global_depth (HT_Insert h t key value) = global_depth t \<or>
    global_depth (HT_Insert h t key value) = global_depth t + 1) \<and>
   (length (dir (HT_Insert h t key value)) = length (dir t) \<or>
    length (dir (HT_Insert h t key value)) = 2 * length (dir t)) \<and>
   (length (store (HT_Insert h t key value)) = length (store t) \<or>
    length (store (HT_Insert h t key value)) = length (store t) + 2)"
  by (simp add: HT_Insert_def Let_def split_bucket_num_buckets split_bucket_global_depth
      split_bucket_dir_length split_bucket_store_length split: prod.splits)

subsection \<open>The claims on the table that fail\<close>

text \<open>
  C1, at the input where it fails. Bucket size 2, the keys 0, 4, 8 (all even) inserted
  into a new table: the third \<open>Insert\<close> finds the bucket full and splits it once, on the
  lowest bit; 0 and 4 both go to the new bucket of slot 0, which is full again, and the
  final \<open>Bucket::Insert\<close> of 8 returns false. The depth and the bucket count have grown,
  0 and 4 are found, 8 is not.
\<close>

theorem HT_third_insert_lost:
  "global_depth (HT_Insert int_hash (HT_Insert int_hash (HT_Insert int_hash
      (new_ExtendibleHashTable 2) 0 (10::int)) 4 40) 8 80) = 1 \<and>
   num_buckets (HT_Insert int_hash (HT_Insert int_hash (HT_Insert int_hash
      (new_ExtendibleHashTable 2) 0 (10::int)) 4 40) 8 80) = 2 \<and>
   HT_Find int_hash (HT_Insert int_hash (HT_Insert int_hash (HT_Insert int_hash
      (new_ExtendibleHashTable 2) 0 (10::int)) 4 40) 8 80) 0 = Some 10 \<and>
   HT_Find int_hash (HT_Insert int_hash (HT_Insert int_hash (HT_Insert int_hash
      (new_ExtendibleHashTable 2) 0 (10::int)) 4 40) 8 80) 4 = Some 40 \<and>
   HT_Find int_hash (HT_Insert int_hash (HT_Insert int_hash (HT_Insert int_hash
      (new_ExtendibleHashTable 2) 0 (10::int)) 4 40) 8 80) 8 = None"
  by (simp add: ht_defs Let_def)

text \<open>
  C5, at the input where it fails. After \<open>Insert(7, 1)\<close> and \<open>Insert(7, 2)\<close> into a new
  table, \<open>Find(7)\<close> gives 1: the second call changes nothing.
\<close>

theorem HT_Insert_present_keeps_old_value:
  "HT_Find int_hash (HT_Insert int_hash (HT_Insert int_hash
      (new_ExtendibleHashTable 2) 7 (1::int)) 7 2) 7 = Some 1 \<and>
   HT_Insert int_hash (HT_Insert int_hash (new_ExtendibleHashTable 2) 7 (1::int)) 7 2 =
     HT_Insert int_hash (new_ExtendibleHashTable 2) 7 (1::int)"
  by (simp add: ht_defs Let_def)

text \<open>
  The loss of the third key does not depend on the hash function: with bucket size 2, any
  three distinct keys whose hashes agree on the lowest bit fill one bucket again after
  the single split.
\<close>

lemma rewire_two_slots: "rewire 0 a0 a1 [x, y] 0 = [a0, a1]"
  by (simp add: rewire.simps)

theorem HT_third_insert_lost_any_hash:
  assumes "k1 \<noteq> k2" and "k1 \<noteq> k3" and "k2 \<noteq> k3"
    and "h k1 mod 2 = h k3 mod 2" and "h k2 mod 2 = h k3 mod 2"
  shows "HT_Find h (HT_Insert h (HT_Insert h (HT_Insert h (new_ExtendibleHashTable 2)
           k1 v1) k2 v2) k3 v3) k3 = None"
proof (cases "h k3 mod 2 = 0")
  case True
  with assms show ?thesis
    by (simp add: HT_Insert_def HT_Find_def IndexOf_def bucket_at_def
        new_ExtendibleHashTable_def new_Bucket_def Bucket_Find_def IsFull_def Bucket_Insert_def
        split_bucket_def Let_def rewire_two_slots and_one_eq)
next
  case False
  then have "h k3 mod 2 = 1" by presburger
  with assms show ?thesis
    by (simp add: HT_Insert_def HT_Find_def IndexOf_def bucket_at_def
        new_ExtendibleHashTable_def new_Bucket_def Bucket_Find_def IsFull_def Bucket_Insert_def
        split_bucket_def Let_def rewire_two_slots and_one_eq)
qed

text \<open>With the hash 3k + 1 and the keys 1, 3, 5, whose hashes are all even.\<close>

theorem HT_third_insert_lost_any_hash_witness:
  "HT_Find (\<lambda>k. nat (3 * k + 1))
     (HT_Insert (\<lambda>k. nat (3 * k + 1))
        (HT_Insert (\<lambda>k. nat (3 * k + 1))
           (HT_Insert (\<lambda>k. nat (3 * k + 1)) (new_ExtendibleHashTable 2) 1 (10::int)) 3 30)
        5 50) 5 = None"
  by (rule HT_third_insert_lost_any_hash) simp_all

subsection \<open>What the table does guarantee\<close>

text \<open>
  A key that is absent and whose bucket has room is found, with its value, after
  \<open>Insert\<close>. (The third hypothesis says that the directory slot points to a bucket.)
\<close>

lemma Bucket_overwrite_absent:
  "Bucket_Find_list l key = None \<Longrightarrow> Bucket_overwrite l key value = None"
  by (induction l) (auto split: if_splits)

lemma Bucket_Find_list_append:
  "Bucket_Find_list l key = None \<Longrightarrow> Bucket_Find_list (l @ [(key, value)]) key = Some value"
  by (induction l) (auto split: if_splits)

lemma Bucket_Insert_then_Find:
  "Bucket_Find b key = None \<Longrightarrow> \<not> IsFull b \<Longrightarrow>
   Bucket_Find (snd (Bucket_Insert b key value)) key = Some value"
  by (simp add: Bucket_Find_def Bucket_Insert_def Bucket_overwrite_absent Bucket_Find_list_append)

theorem HT_Insert_then_Find_with_room:
  assumes "HT_Find h t key = None"
    and "\<not> IsFull (bucket_at t (IndexOf h t key))"
    and "dir t ! IndexOf h t key < length (store t)"
  shows "HT_Find h (HT_Insert h t key value) key = Some value"
proof -
  let ?i = "IndexOf h t key"
  let ?a = "dir t ! ?i"
  let ?t' = "t\<lparr>store := (store t)[?a := snd (Bucket_Insert (store t ! ?a) key value)]\<rparr>"
  have nf: "Bucket_Find (bucket_at t ?i) key = None"
    using assms(1) by (simp add: HT_Find_def Let_def)
  then have ins: "HT_Insert h t key value = ?t'"
    using assms(2) by (simp add: HT_Insert_def Let_def)
  have idx: "IndexOf h ?t' key = ?i" by (simp add: IndexOf_def)
  have "bucket_at ?t' ?i = snd (Bucket_Insert (bucket_at t ?i) key value)"
    using assms(3) by (simp add: bucket_at_def)
  with nf assms(2) show ?thesis
    by (simp add: ins HT_Find_def idx Let_def Bucket_Insert_then_Find)
qed

theorem HT_Insert_then_Find_with_room_witness:
  "HT_Find int_hash (HT_Insert int_hash (HT_Insert int_hash (new_ExtendibleHashTable 2)
      0 (10::int)) 4 40) 4 = Some 40"
proof -
  let ?t = "HT_Insert int_hash (new_ExtendibleHashTable 2) 0 (10::int)"
  have "HT_Find int_hash ?t 4 = None" "\<not> IsFull (bucket_at ?t (IndexOf int_hash ?t 4))"
    "dir ?t ! IndexOf int_hash ?t 4 < length (store ?t)"
    by (simp_all add: ht_defs Let_def)
  then show ?thesis by (rule HT_Insert_then_Find_with_room)
qed

text \<open>\<open>Insert\<close> of a key that \<open>Find\<close> finds leaves the table, and the value found, as they are.\<close>

theorem HT_Insert_present_unchanged:
  "HT_Find h t key = Some v0 \<Longrightarrow>
   HT_Insert h t key value = t \<and> HT_Find h (HT_Insert h t key value) key = Some v0"
  by (simp add: HT_Insert_def HT_Find_def Let_def)

theorem HT_Insert_present_unchanged_witness:
  "HT_Find int_hash (HT_Insert int_hash (new_ExtendibleHashTable 2) 7 (1::int)) 7 = Some 1 \<and>
   HT_Find int_hash (HT_Insert int_hash (HT_Insert int_hash (new_ExtendibleHashTable 2)
      7 (1::int)) 7 2) 7 = Some 1"
proof -
  have f: "HT_Find int_hash (HT_Insert int_hash (new_ExtendibleHashTable 2) 7 (1::int)) 7 = Some 1"
    by (simp add: ht_defs Let_def)
  from HT_Insert_present_unchanged[OF f, of 2] f show ?thesis by simp
qed

section \<open>Properties of the replacer\<close>

lemma scan_tracked:
  "\<forall>f \<in> set xs. es f \<noteq> None \<Longrightarrow>
   scan ev0 es xs = (find (\<lambda>f. case es f of Some e \<Rightarrow> evictable e | None \<Rightarrow> False) xs, es)"
  by (induction xs) (auto simp: entry_at_def split: option.splits)

lemma find_is_evictable:
  "find (\<lambda>f. case entries r f of Some e \<Rightarrow> evictable e | None \<Rightarrow> False) xs = find (is_evictable r) xs"
  by (simp add: is_evictable_def[abs_def])

lemma Evict_inv:
  assumes "inv_struct r"
  shows "Evict ev0 r =
     (case find (is_evictable r) (hlist r) of
        Some f \<Rightarrow> (Some f, r\<lparr>hlist := remove1 f (hlist r), entries := (entries r)(f := None),
                     curr_size := curr_size r - 1\<rparr>)
      | None \<Rightarrow>
         (case find (is_evictable r) (klist r) of
            Some f \<Rightarrow> (Some f, r\<lparr>klist := remove1 f (klist r), entries := (entries r)(f := None),
                     curr_size := curr_size r - 1\<rparr>)
          | None \<Rightarrow> (None, r)))"
proof -
  have h: "\<forall>f \<in> set (hlist r). entries r f \<noteq> None" and k: "\<forall>f \<in> set (klist r). entries r f \<noteq> None"
    using assms by (auto simp: inv_struct_def inv_lists_def)
  show ?thesis
    by (simp add: Evict_def scan_tracked[OF h] scan_tracked[OF k] find_is_evictable split: option.splits)
qed

lemma inv_struct_new: "inv_struct (new_LRUKReplacer n k)"
  by (simp add: inv_struct_def inv_lists_def new_LRUKReplacer_def)

lemma inv_struct_SetEvictable: "inv_struct r \<Longrightarrow> inv_struct (SetEvictable r f b)"
  unfolding inv_struct_def inv_lists_def SetEvictable_def
  by (auto split: option.splits if_splits)

lemma find_Some_set: "find P xs = Some x \<Longrightarrow> x \<in> set xs \<and> P x"
  by (auto simp: find_Some_iff)

lemma inv_lists_drop_h:
  "inv_lists h k es \<Longrightarrow> f \<in> set h \<Longrightarrow> inv_lists (remove1 f h) k (es(f := None))"
  unfolding inv_lists_def by (auto split: if_splits)

lemma inv_lists_drop_k:
  "inv_lists h k es \<Longrightarrow> f \<in> set k \<Longrightarrow> inv_lists h (remove1 f k) (es(f := None))"
  unfolding inv_lists_def by (auto split: if_splits)

lemma inv_struct_Evict: "inv_struct r \<Longrightarrow> inv_struct (snd (Evict ev0 r))"
  by (auto simp: Evict_inv inv_struct_def inv_lists_drop_h inv_lists_drop_k split: option.splits
           dest!: find_Some_set)

lemma inv_struct_Remove: "inv_struct r \<Longrightarrow> LRUK_Remove r f = Inr r' \<Longrightarrow> inv_struct r'"
  unfolding LRUK_Remove_def list_erase_def
  by (auto split: option.splits if_splits sum.splits
       simp: inv_struct_def inv_lists_drop_h inv_lists_drop_k)

lemma inv_lists_first:
  "inv_lists h k es \<Longrightarrow> es f = None \<Longrightarrow>
   inv_lists (h @ [f]) k (es(f \<mapsto> \<lparr>count = Suc 0, evictable = b, pos = Some In_list\<rparr>))"
  unfolding inv_lists_def by (fastforce split: if_splits)

lemma inv_lists_count:
  "inv_lists h k es \<Longrightarrow> es f = Some e \<Longrightarrow> inv_lists h k (es(f \<mapsto> e\<lparr>count := Suc (count e)\<rparr>))"
  unfolding inv_lists_def by (auto split: if_splits)

lemma inv_lists_promote:
  "inv_lists h k es \<Longrightarrow> es f = Some e \<Longrightarrow> f \<in> set h \<Longrightarrow>
   inv_lists (remove1 f h) (k @ [f]) (es(f \<mapsto> e\<lparr>count := Suc (count e), pos := Some In_klist\<rparr>))"
  unfolding inv_lists_def by (auto split: if_splits)

lemma inv_lists_touch:
  "inv_lists h k es \<Longrightarrow> es f = Some e \<Longrightarrow> f \<in> set k \<Longrightarrow>
   inv_lists h (remove1 f k @ [f]) (es(f \<mapsto> e\<lparr>count := Suc (count e), pos := Some In_klist\<rparr>))"
  unfolding inv_lists_def by (auto split: if_splits)

lemma inv_lists_SomeD:
  "inv_lists h k es \<Longrightarrow> es f = Some e \<Longrightarrow>
   1 \<le> count e \<and> (pos e = Some In_list \<longleftrightarrow> f \<in> set h) \<and> (pos e = Some In_klist \<longleftrightarrow> f \<in> set k)
   \<and> (f \<in> set h \<or> f \<in> set k) \<and> \<not> (f \<in> set h \<and> f \<in> set k)"
  unfolding inv_lists_def by auto

lemma inv_struct_RecordAccess:
  assumes "inv_struct r" and "RecordAccess ev0 r f = Inr r'"
  shows "inv_struct r'"
proof (cases "entries r f")
  case None
  with assms show ?thesis
    by (auto simp: RecordAccess_def entry_at_def new_entry_def Let_def inv_struct_def
          inv_lists_first)
next
  case (Some e)
  from assms(1) Some have e: "1 \<le> count e" "pos e = Some In_list \<longleftrightarrow> f \<in> set (hlist r)"
    "pos e = Some In_klist \<longleftrightarrow> f \<in> set (klist r)"
    by (auto simp: inv_struct_def dest: inv_lists_SomeD)
  have I: "inv_lists (hlist r) (klist r) (entries r)"
    using assms(1) by (simp add: inv_struct_def)
  show ?thesis
    using assms(2) Some e inv_lists_count[OF I Some] inv_lists_promote[OF I Some]
      inv_lists_touch[OF I Some]
    by (auto simp: RecordAccess_def entry_at_def Let_def list_erase_def inv_struct_def
          split: if_splits)
qed

subsection \<open>The lists and the access counts\<close>

lemma lru_k_SetEvictable [simp]: "lru_k (SetEvictable r f b) = lru_k r"
  by (simp add: SetEvictable_def split: option.splits)

lemma lru_k_Evict [simp]: "lru_k (snd (Evict ev0 r)) = lru_k r"
  by (simp add: Evict_def split: prod.splits option.splits)

lemma lru_k_RecordAccess: "RecordAccess ev0 r f = Inr r' \<Longrightarrow> lru_k r' = lru_k r"
  by (auto simp: RecordAccess_def Let_def split: prod.splits if_splits sum.splits)

lemma lru_k_Remove: "LRUK_Remove r f = Inr r' \<Longrightarrow> lru_k r' = lru_k r"
  by (auto simp: LRUK_Remove_def split: option.splits if_splits sum.splits)

lemma inv_k_new: "inv_k (new_LRUKReplacer n k)"
  by (simp add: inv_k_def new_LRUKReplacer_def)

lemma inv_k_SetEvictable: "inv_k r \<Longrightarrow> inv_k (SetEvictable r f b)"
  unfolding inv_k_def SetEvictable_def by (auto split: option.splits if_splits)

lemma inv_k_Evict: "inv_struct r \<Longrightarrow> inv_k r \<Longrightarrow> inv_k (snd (Evict ev0 r))"
  unfolding inv_k_def by (auto simp: Evict_inv split: option.splits if_splits)

lemma inv_k_Remove: "inv_k r \<Longrightarrow> LRUK_Remove r f = Inr r' \<Longrightarrow> inv_k r'"
  unfolding inv_k_def LRUK_Remove_def
  by (auto split: option.splits if_splits sum.splits)

lemma inv_k_RecordAccess:
  assumes "2 \<le> lru_k r" and "inv_struct r" and "inv_k r" and "RecordAccess ev0 r f = Inr r'"
  shows "inv_k r'"
proof (cases "entries r f")
  case None
  with assms show ?thesis
    unfolding inv_k_def
    by (auto simp: RecordAccess_def entry_at_def new_entry_def Let_def split: if_splits)
next
  case (Some e)
  from assms(2) Some have e: "1 \<le> count e"
    by (auto simp: inv_struct_def dest: inv_lists_SomeD)
  from assms(3) Some have k: "count e < lru_k r \<longleftrightarrow> pos e = Some In_list"
    by (auto simp: inv_k_def)
  then have k': "Suc (count e) < lru_k r \<Longrightarrow> pos e = Some In_list"
    by simp
  show ?thesis
    using assms(3,4) Some e k k' unfolding inv_k_def
    by (auto simp: RecordAccess_def entry_at_def Let_def list_erase_def
          split: if_splits)
qed

text \<open>No undefined behaviour when k is at least 2.\<close>

lemma RecordAccess_defined:
  assumes "2 \<le> lru_k r" and "inv_struct r" and "inv_k r"
  shows "\<exists>r'. RecordAccess ev0 r f = Inr r'"
proof (cases "entries r f")
  case None
  then show ?thesis
    by (simp add: RecordAccess_def entry_at_def new_entry_def Let_def)
next
  case (Some e)
  from assms(2) Some have e: "1 \<le> count e" "pos e = Some In_list \<longleftrightarrow> f \<in> set (hlist r)"
    "pos e = Some In_klist \<longleftrightarrow> f \<in> set (klist r)" "f \<in> set (hlist r) \<or> f \<in> set (klist r)"
    by (auto simp: inv_struct_def dest: inv_lists_SomeD)
  from assms(3) Some have k: "count e < lru_k r \<longleftrightarrow> pos e = Some In_list"
    by (auto simp: inv_k_def)
  show ?thesis
    using Some e k
    by (auto simp: RecordAccess_def entry_at_def Let_def list_erase_def)
qed

lemma Remove_defined:
  assumes "inv_struct r" and "inv_k r"
  shows "LRUK_Remove r f \<noteq> Inl Invalid_iterator \<and> LRUK_Remove r f \<noteq> Inl Frame_out_of_range"
proof (cases "entries r f")
  case None
  then show ?thesis by (simp add: LRUK_Remove_def)
next
  case (Some e)
  from assms(1) Some have e: "pos e = Some In_list \<longleftrightarrow> f \<in> set (hlist r)"
    "pos e = Some In_klist \<longleftrightarrow> f \<in> set (klist r)" "f \<in> set (hlist r) \<or> f \<in> set (klist r)"
    by (auto simp: inv_struct_def dest: inv_lists_SomeD)
  from assms(2) Some have k: "count e < lru_k r \<longleftrightarrow> pos e = Some In_list"
    by (auto simp: inv_k_def)
  show ?thesis
    using Some e k
    by (auto simp: LRUK_Remove_def list_erase_def)
qed

subsection \<open>Runs of calls\<close>

lemma inv_struct_step: "inv_struct r \<Longrightarrow> step ev0 r c = Inr r' \<Longrightarrow> inv_struct r'"
  by (cases c)
    (auto intro: inv_struct_RecordAccess inv_struct_SetEvictable inv_struct_Evict
       inv_struct_Remove)

lemma lru_k_step: "step ev0 r c = Inr r' \<Longrightarrow> lru_k r' = lru_k r"
  by (cases c) (auto dest: lru_k_RecordAccess lru_k_Remove)

lemma inv_k_step:
  "2 \<le> lru_k r \<Longrightarrow> inv_struct r \<Longrightarrow> inv_k r \<Longrightarrow> step ev0 r c = Inr r' \<Longrightarrow> inv_k r'"
  by (cases c) (auto intro: inv_k_RecordAccess inv_k_SetEvictable inv_k_Evict inv_k_Remove)

lemma inv_struct_run: "inv_struct r \<Longrightarrow> run ev0 r cs = Inr r' \<Longrightarrow> inv_struct r'"
proof (induction cs arbitrary: r)
  case Nil
  then show ?case by simp
next
  case (Cons c cs)
  then show ?case
    by (auto split: sum.splits error.splits dest: inv_struct_step)
qed



lemma step_defined:
  assumes "2 \<le> lru_k r" and "inv_struct r" and "inv_k r"
  shows "step ev0 r c \<noteq> Inl Invalid_iterator \<and> step ev0 r c \<noteq> Inl Frame_out_of_range"
proof (cases c)
  case (Call_RecordAccess f)
  with RecordAccess_defined[OF assms, of ev0 f] show ?thesis by auto
next
  case (Call_Remove f)
  with Remove_defined[OF assms(2,3), of f] show ?thesis by simp
qed auto

lemma run_defined:
  "2 \<le> lru_k r \<Longrightarrow> inv_struct r \<Longrightarrow> inv_k r \<Longrightarrow> \<exists>r'. run ev0 r cs = Inr r'"
proof (induction cs arbitrary: r)
  case Nil
  then show ?case by simp
next
  case (Cons c cs)
  show ?case
  proof (cases "step ev0 r c")
    case (Inl x)
    with step_defined[OF Cons.prems, of ev0 c] have "x = Logic_error" by (cases x) auto
    with Inl Cons show ?thesis by simp
  next
    case (Inr r1)
    with Cons.prems have "inv_k r1" "inv_struct r1" "2 \<le> lru_k r1"
      by (auto dest: inv_k_step inv_struct_step lru_k_step)
    with Cons.IH[of r1] Inr show ?thesis by simp
  qed
qed

subsection \<open>The size counter\<close>

lemma evictable_frames_alt:
  "evictable_frames r = {f. \<exists>e. entries r f = Some e \<and> evictable e}"
  by (auto simp: evictable_frames_def is_evictable_def split: option.splits)

text \<open>The evictable frames are the evictable members of the two lists, each counted once.\<close>

lemma evictable_frames_lists:
  assumes "inv_struct r"
  shows "card (evictable_frames r) = length (filter (is_evictable r) (hlist r @ klist r))"
proof -
  let ?l = "filter (is_evictable r) (hlist r @ klist r)"
  have e: "evictable_frames r = set ?l"
    using assms
    by (auto simp: evictable_frames_def is_evictable_def inv_struct_def inv_lists_def
             split: option.splits)
  have "distinct (hlist r @ klist r)"
    using assms by (simp add: inv_struct_def inv_lists_def)
  then have "distinct ?l" by (rule distinct_filter)
  then have "card (set ?l) = length ?l" by (rule distinct_card)
  with e show ?thesis by (simp only:)
qed

lemma evictable_frames_finite: "inv_struct r \<Longrightarrow> finite (evictable_frames r)"
proof -
  assume "inv_struct r"
  then have "evictable_frames r \<subseteq> set (hlist r) \<union> set (klist r)"
    by (auto simp: evictable_frames_alt inv_struct_def inv_lists_def)
  then show ?thesis by (rule finite_subset) simp
qed

lemma word_card_insert:
  "finite A \<Longrightarrow> f \<notin> A \<Longrightarrow> (of_nat (card (insert f A)) :: 64 word) = of_nat (card A) + 1"
  by simp

lemma word_card_remove:
  "finite A \<Longrightarrow> f \<in> A \<Longrightarrow> (of_nat (card A - Suc 0) :: 64 word) = of_nat (card A) - 1"
proof -
  assume a: "finite A" "f \<in> A"
  then have "1 \<le> card A" by (metis card_gt_0_iff empty_iff less_eq_Suc_le One_nat_def)
  then show ?thesis by (simp add: of_nat_diff)
qed

lemma evictable_frames_SetEvictable:
  "evictable_frames (SetEvictable r f b) =
     (case entries r f of None \<Rightarrow> evictable_frames r
      | Some e \<Rightarrow> if b then insert f (evictable_frames r) else evictable_frames r - {f})"
  by (auto simp: evictable_frames_alt SetEvictable_def split: option.splits if_splits)

lemma inv_size_new: "inv_size (new_LRUKReplacer n k)"
  by (simp add: inv_size_def new_LRUKReplacer_def evictable_frames_alt)

lemma inv_size_SetEvictable:
  assumes "inv_struct r" and "inv_size r"
  shows "inv_size (SetEvictable r f b)"
proof (cases "entries r f")
  case None
  with assms(2) show ?thesis by (simp add: SetEvictable_def)
next
  case (Some e)
  have fin: "finite (evictable_frames r)" by (rule evictable_frames_finite[OF assms(1)])
  have mem: "f \<in> evictable_frames r \<longleftrightarrow> evictable e"
    using Some by (simp add: evictable_frames_alt)
  have cs: "curr_size (SetEvictable r f b) =
      (if evictable e \<and> \<not> b then curr_size r - 1
       else if \<not> evictable e \<and> b then curr_size r + 1 else curr_size r)"
    using Some by (simp add: SetEvictable_def)
  have ef: "evictable_frames (SetEvictable r f b) =
      (if b then insert f (evictable_frames r) else evictable_frames r - {f})"
    using Some by (simp add: evictable_frames_SetEvictable)
  show ?thesis
    using assms(2) mem fin unfolding inv_size_def cs ef
    by (auto simp: word_card_remove[of _ f] insert_absorb)
qed

lemma inv_size_drop:
  assumes "inv_struct r" and "inv_size r" and "is_evictable r f"
    and "entries r' = (entries r)(f := None)" and "curr_size r' = curr_size r - 1"
  shows "inv_size r'"
proof -
  have fin: "finite (evictable_frames r)" by (rule evictable_frames_finite[OF assms(1)])
  have mem: "f \<in> evictable_frames r"
    using assms(3) by (auto simp: evictable_frames_alt is_evictable_def split: option.splits)
  have "evictable_frames r' = evictable_frames r - {f}"
    using assms(4) by (auto simp: evictable_frames_alt)
  with assms(2,5) fin mem show ?thesis
    by (simp add: inv_size_def word_card_remove[of _ f])
qed

lemma inv_size_Evict:
  assumes "inv_struct r" and "inv_size r"
  shows "inv_size (snd (Evict ev0 r))"
proof (cases "find (is_evictable r) (hlist r)")
  case (Some f)
  then have "is_evictable r f" by (auto dest: find_Some_set)
  from inv_size_drop[OF assms this] Some show ?thesis
    by (simp add: Evict_inv[OF assms(1)])
next
  case None
  show ?thesis
  proof (cases "find (is_evictable r) (klist r)")
    case (Some f)
    then have "is_evictable r f" by (auto dest: find_Some_set)
    from inv_size_drop[OF assms this] Some None show ?thesis
      by (simp add: Evict_inv[OF assms(1)])
  next
    case None2: None
    with None assms(2) show ?thesis
      by (simp add: Evict_inv[OF assms(1)])
  qed
qed

lemma inv_size_Remove:
  assumes "inv_struct r" and "inv_size r" and "LRUK_Remove r f = Inr r'"
  shows "inv_size r'"
  using assms
  by (auto simp: LRUK_Remove_def is_evictable_def split: option.splits if_splits sum.splits
           intro!: inv_size_drop[OF assms(1,2), of f])

lemma inv_size_RecordAccess:
  assumes "inv_struct r" and "inv_size r" and "RecordAccess True r f = Inr r'"
  shows "inv_size r'"
proof (cases "entries r f")
  case None
  have fin: "finite (evictable_frames r)" by (rule evictable_frames_finite[OF assms(1)])
  have nmem: "f \<notin> evictable_frames r" using None by (simp add: evictable_frames_alt)
  from None assms(3) have
    "evictable_frames r' = insert f (evictable_frames r)" "curr_size r' = curr_size r + 1"
    by (auto simp: RecordAccess_def entry_at_def new_entry_def Let_def evictable_frames_alt
             split: if_splits)
  with assms(2) fin nmem show ?thesis by (simp add: inv_size_def)
next
  case (Some e)
  from assms(1) Some have e: "1 \<le> count e"
    by (auto simp: inv_struct_def dest: inv_lists_SomeD)
  from Some e assms(3) have
    "evictable_frames r' = evictable_frames r" "curr_size r' = curr_size r"
    by (auto simp: RecordAccess_def entry_at_def Let_def evictable_frames_alt
             split: if_splits sum.splits)
  with assms(2) show ?thesis by (simp add: inv_size_def)
qed

lemma inv_size_step:
  "inv_struct r \<Longrightarrow> inv_size r \<Longrightarrow> step True r c = Inr r' \<Longrightarrow> inv_size r'"
  by (cases c)
    (auto intro: inv_size_RecordAccess inv_size_SetEvictable inv_size_Evict inv_size_Remove)

lemma inv_size_run:
  "inv_struct r \<Longrightarrow> inv_size r \<Longrightarrow> run True r cs = Inr r' \<Longrightarrow> inv_size r'"
proof (induction cs arbitrary: r)
  case Nil
  then show ?case by simp
next
  case (Cons c cs)
  show ?case
  proof (cases "step True r c")
    case (Inl x)
    with Cons show ?thesis by (cases x) auto
  next
    case (Inr r1)
    with Cons.prems have "inv_size r1" "inv_struct r1"
      by (auto dest: inv_size_step inv_struct_step)
    with Cons.IH[of r1] Cons.prems(3) Inr show ?thesis by simp
  qed
qed

subsection \<open>The order of eviction\<close>








subsection \<open>The node that \<open>Evict\<close> erases\<close>

text \<open>
  The loop of \<open>Evict\<close> stops at the first node that holds the victim's frame id, so
  \<open>remove1\<close> removes the node the iterator stands at.
\<close>

lemma scan_victim_flag:
  "scan ev0 es xs = (Some f, es') \<Longrightarrow> (case es f of Some e \<Rightarrow> evictable e | None \<Rightarrow> ev0)"
proof (induction xs arbitrary: es)
  case Nil
  then show ?case by simp
next
  case (Cons g gs)
  obtain e es1 where ea: "entry_at ev0 es g = (e, es1)" by (cases "entry_at ev0 es g")
  show ?case
  proof (cases "evictable e")
    case True
    with Cons.prems ea have "f = g" by simp
    with ea True show ?thesis
      by (auto simp: entry_at_def new_entry_def split: option.splits)
  next
    case False
    with Cons.prems ea have sc: "scan ev0 es1 gs = (Some f, es')" by simp
    from Cons.IH[OF sc] have ih: "case es1 f of Some e \<Rightarrow> evictable e | None \<Rightarrow> ev0" .
    from ea False have g: "es1 g = Some e"
      by (auto simp: entry_at_def split: option.splits)
    with ih False have "f \<noteq> g" by auto
    with ea have "es1 f = es f"
      by (auto simp: entry_at_def split: option.splits)
    with ih show ?thesis by simp
  qed
qed

lemma scan_first:
  "scan ev0 es xs = (Some f, es') \<Longrightarrow> \<exists>pre post. xs = pre @ f # post \<and> f \<notin> set pre"
proof (induction xs arbitrary: es)
  case Nil
  then show ?case by simp
next
  case (Cons g gs)
  obtain e es1 where ea: "entry_at ev0 es g = (e, es1)" by (cases "entry_at ev0 es g")
  show ?case
  proof (cases "evictable e")
    case True
    with Cons.prems ea have "f = g" by simp
    then have "g # gs = [] @ f # gs \<and> f \<notin> set []" by simp
    then show ?thesis by blast
  next
    case False
    with Cons.prems ea have sc: "scan ev0 es1 gs = (Some f, es')" by simp
    from Cons.IH[OF sc] obtain pre post where p: "gs = pre @ f # post" "f \<notin> set pre" by blast
    from ea False have g: "es1 g = Some e"
      by (auto simp: entry_at_def split: option.splits)
    with scan_victim_flag[OF sc] False have "f \<noteq> g" by auto
    with p have "g # gs = (g # pre) @ f # post \<and> f \<notin> set (g # pre)" by simp
    then show ?thesis by blast
  qed
qed

lemma remove1_first: "f \<notin> set pre \<Longrightarrow> remove1 f (pre @ f # post) = pre @ post"
  by (induction pre) auto

subsection \<open>The order within the lists\<close>

text \<open>
  A call changes \<open>list_\<close> only by erasing a frame or by appending, at the tail, a frame
  that was not tracked: the list is in the order of the frames' first accesses. It
  changes \<open>klist_\<close> only by erasing a frame or by moving the accessed frame to the tail:
  the list is in the order of the frames' last accesses.
\<close>

lemma hlist_fifo:
  assumes "inv_struct r" and "step ev0 r c = Inr r'"
  shows "hlist r' = hlist r \<or> (\<exists>f. hlist r' = remove1 f (hlist r)) \<or>
         (\<exists>f. entries r f = None \<and> hlist r' = hlist r @ [f])"
proof (cases c)
  case (Call_RecordAccess f)
  with assms(2) show ?thesis
    by (cases "entries r f")
       (auto simp: RecordAccess_def entry_at_def new_entry_def Let_def list_erase_def
             split: if_splits dest: inv_lists_SomeD[OF assms(1)[unfolded inv_struct_def]])
next
  case (Call_SetEvictable f b)
  with assms(2) show ?thesis by (auto simp: SetEvictable_def split: option.splits)
next
  case Call_Evict
  with assms show ?thesis by (auto simp: Evict_inv split: option.splits)
next
  case (Call_Remove f)
  with assms(2) show ?thesis
    by (auto simp: LRUK_Remove_def list_erase_def split: option.splits if_splits)
qed

lemma klist_lru:
  assumes "inv_struct r" and "step ev0 r c = Inr r'"
  shows "klist r' = klist r \<or> (\<exists>f. klist r' = remove1 f (klist r)) \<or>
         (\<exists>f. klist r' = remove1 f (klist r) @ [f])"
proof (cases c)
  case (Call_RecordAccess f)
  show ?thesis
  proof (cases "entries r f")
    case None
    with assms(2) Call_RecordAccess show ?thesis
      by (auto simp: RecordAccess_def entry_at_def new_entry_def Let_def)
  next
    case (Some e)
    from inv_lists_SomeD[OF assms(1)[unfolded inv_struct_def] Some]
    have "f \<in> set (hlist r) \<Longrightarrow> remove1 f (klist r) = klist r"
      by (auto simp: remove1_idem)
    with assms(2) Call_RecordAccess Some show ?thesis
      by (auto simp: RecordAccess_def entry_at_def Let_def list_erase_def split: if_splits)
  qed
next
  case (Call_SetEvictable f b)
  with assms(2) show ?thesis by (auto simp: SetEvictable_def split: option.splits)
next
  case Call_Evict
  with assms show ?thesis by (auto simp: Evict_inv split: option.splits)
next
  case (Call_Remove f)
  with assms(2) show ?thesis
    by (auto simp: LRUK_Remove_def list_erase_def split: option.splits if_splits)
qed

subsection \<open>The access times\<close>
















subsection \<open>The claims on the replacer\<close>

lemma run_defined_new: "2 \<le> k \<Longrightarrow> \<exists>r. run ev0 (new_LRUKReplacer n k) cs = Inr r"
  by (rule run_defined[OF _ inv_struct_new inv_k_new]) (simp add: new_LRUKReplacer_def)




text \<open>The definitions that evaluate a run of calls.\<close>

lemmas rep_defs =
  RecordAccess_def SetEvictable_def Evict_def LRUK_Remove_def new_LRUKReplacer_def entry_at_def
  new_entry_def list_erase_def calls0_def tick_def no_times_def


text \<open>
  C7, as amended. When a new entry is created evictable, \<open>Size()\<close> is the number of
  tracked frames whose flag is set, in every state that a run of calls reaches from a new
  replacer (for k of at least 2 every run reaches one). That number is also the number of
  evictable frames in the two lists.
\<close>

theorem Size_counts_evictable:
  "(2 \<le> k \<longrightarrow> (\<exists>r. run True (new_LRUKReplacer n k) cs = Inr r)) \<and>
   (\<forall>r. run True (new_LRUKReplacer n k) cs = Inr r \<longrightarrow>
      Size r = of_nat (card (evictable_frames r)) \<and>
      card (evictable_frames r) = length (filter (is_evictable r) (hlist r @ klist r)) \<and>
      (card (evictable_frames r) < 2 ^ 64 \<longrightarrow> unat (Size r) = card (evictable_frames r)))"
proof (intro conjI impI allI)
  assume "2 \<le> k"
  then show "\<exists>r. run True (new_LRUKReplacer n k) cs = Inr r" by (rule run_defined_new)
next
  fix r assume run: "run True (new_LRUKReplacer n k) cs = Inr r"
  have I: "inv_struct r"
    using inv_struct_run[OF inv_struct_new run] .
  have "inv_size r"
    using inv_size_run[OF inv_struct_new inv_size_new run] .
  then show s: "Size r = of_nat (card (evictable_frames r))"
    by (simp add: Size_def inv_size_def)
  show "card (evictable_frames r) = length (filter (is_evictable r) (hlist r @ klist r))"
    by (rule evictable_frames_lists[OF I])
  assume "card (evictable_frames r) < 2 ^ 64"
  with s show "unat (Size r) = card (evictable_frames r)"
    by (simp add: unat_of_nat)
qed

text \<open>
  After the calls \<open>calls0\<close> the lists hold the frames 2, 3 and 1, of which 3 and 1 are
  evictable, and \<open>Size()\<close> is 2.
\<close>

theorem Size_counts_evictable_witness:
  "hlist (projr (run True (new_LRUKReplacer 3 2) calls0)) @
     klist (projr (run True (new_LRUKReplacer 3 2) calls0)) = [2, 3, 1] \<and>
   filter (is_evictable (projr (run True (new_LRUKReplacer 3 2) calls0))) [2, 3, 1] = [3, 1] \<and>
   card (evictable_frames (projr (run True (new_LRUKReplacer 3 2) calls0))) = 2 \<and>
   unat (Size (projr (run True (new_LRUKReplacer 3 2) calls0))) = 2"
proof -
  let ?r = "projr (run True (new_LRUKReplacer 3 2) calls0)"
  have r: "run True (new_LRUKReplacer 3 2) calls0 = Inr ?r"
    by (simp add: rep_defs Let_def)
  have l: "hlist ?r @ klist ?r = [2, 3, 1]"
    by (simp add: rep_defs Let_def)
  have e: "filter (is_evictable ?r) [2, 3, 1] = [3, 1]"
    by (simp add: is_evictable_def rep_defs Let_def)
  from Size_counts_evictable[of 2 3 calls0] r
  have c: "card (evictable_frames ?r) = length (filter (is_evictable ?r) (hlist ?r @ klist ?r))"
    and u: "card (evictable_frames ?r) < 2 ^ 64 \<longrightarrow>
            unat (Size ?r) = card (evictable_frames ?r)"
    by blast+
  from c l e have c2: "card (evictable_frames ?r) = 2" by simp
  with u have "unat (Size ?r) = 2" by simp
  with l e c2 show ?thesis by simp
qed

text \<open>
  C7 as stated fails: when a new entry is created non-evictable, the first \<open>RecordAccess\<close>
  on a new replacer leaves \<open>Size()\<close> at 1 and no tracked frame evictable.
\<close>

theorem Size_counts_new_non_evictable_entry:
  "(case run False (new_LRUKReplacer 1 2) [Call_RecordAccess 0] of
      Inr r \<Rightarrow> Size r = 1 \<and> evictable_frames r = {} \<and> card (evictable_frames r) = 0
    | Inl x \<Rightarrow> False)"
  by (simp add: rep_defs Let_def Size_def evictable_frames_alt)

text \<open>
  For k below 2 the second access to a frame is undefined: the first access puts the frame
  into \<open>list_\<close>, and the second, with \<open>count > k_\<close>, erases from \<open>klist_\<close> through the iterator
  into \<open>list_\<close>.
\<close>

theorem second_access_undefined_below_2:
  assumes "k \<le> 1"
  shows "run ev0 (new_LRUKReplacer n k) [Call_RecordAccess f, Call_RecordAccess f] =
           Inl Invalid_iterator"
  using assms
  by (auto simp: RecordAccess_def entry_at_def new_entry_def new_LRUKReplacer_def list_erase_def
        Let_def)

theorem second_access_undefined_below_2_witness:
  "run True (new_LRUKReplacer 3 1) [Call_RecordAccess 0, Call_RecordAccess 0] =
     Inl Invalid_iterator"
  by (rule second_access_undefined_below_2) simp

section \<open>Properties of the buffer pool manager\<close>

text \<open>The definitions that evaluate the pool on a concrete state.\<close>

lemmas bpm_defs =
  NewPage_def FetchPage_def UnpinPage_def DeletePage_def DeletePage_frame_def get_frame_def
  evict_victim_def page_of_def set_page_def valid_frame_def ResetMemory_def WritePage_def
  ReadPage_def new_BufferPoolManager_def INVALID_PAGE_ID_def zero_disk_def pool1_def
  pool1_new_def pool1_pinned_twice_def pool1_dirty_def






text \<open>
  What \<open>UnpinPage\<close> does for a resident page with a positive pin count: the dirty hint is
  taken only by the call that brings the pin count to zero.
\<close>

lemma UnpinPage_resident:
  assumes "HT_Find h (page_table b) p = Some f" and "0 < pin_count (page_of b f)"
    and "valid_frame b f"
  shows "fst (UnpinPage h b p dirty) \<and>
         pin_count (page_of (snd (UnpinPage h b p dirty)) f) = pin_count (page_of b f) - 1 \<and>
         is_dirty (page_of (snd (UnpinPage h b p dirty)) f) =
           (if pin_count (page_of b f) = 1 then is_dirty (page_of b f) \<or> dirty
            else is_dirty (page_of b f)) \<and>
         replacer (snd (UnpinPage h b p dirty)) =
           (if pin_count (page_of b f) = 1 then SetEvictable (replacer b) f True
            else replacer b)"
  using assms
  by (auto simp: UnpinPage_def Let_def page_of_def set_page_def valid_frame_def)

text \<open>The last unpin of page 0, with a true hint.\<close>

theorem UnpinPage_resident_witness:
  "HT_Find int_hash (page_table pool1_new) 0 = Some 0 \<and>
   pin_count (page_of pool1_new 0) = 1 \<and>
   fst (UnpinPage int_hash pool1_new 0 True) \<and>
   pin_count (page_of (snd (UnpinPage int_hash pool1_new 0 True)) 0) = 0 \<and>
   is_dirty (page_of (snd (UnpinPage int_hash pool1_new 0 True)) 0) \<and>
   replacer (snd (UnpinPage int_hash pool1_new 0 True)) = SetEvictable (replacer pool1_new) 0 True"
proof -
  have a: "HT_Find int_hash (page_table pool1_new) 0 = Some 0"
    and b: "pin_count (page_of pool1_new 0) = 1"
    and c: "valid_frame pool1_new 0"
    by (simp_all add: bpm_defs ht_defs rep_defs Let_def)
  from b have b': "0 < pin_count (page_of pool1_new 0)" by simp
  from UnpinPage_resident[OF a b' c, of True] a b show ?thesis by simp
qed

text \<open>\<open>UnpinPage\<close> fails, and changes nothing, for a page that is not resident or not pinned.\<close>

lemma UnpinPage_fails:
  "HT_Find h (page_table b) p = None \<or>
   (\<exists>f. HT_Find h (page_table b) p = Some f \<and> pin_count (page_of b f) \<le> 0) \<Longrightarrow>
   UnpinPage h b p dirty = (False, b)"
  by (auto simp: UnpinPage_def Let_def)

text \<open>
  C3, at the input where it fails. Page 0 is resident in frame 0, pinned twice and clean.
  \<open>UnpinPage(0, true)\<close> returns true and leaves the pin count at 1 and the frame clean: the
  hint is lost.
\<close>

theorem UnpinPage_loses_dirty_hint:
  "HT_Find int_hash (page_table pool1_pinned_twice) 0 = Some 0 \<and>
   pin_count (page_of pool1_pinned_twice 0) = 2 \<and>
   \<not> is_dirty (page_of pool1_pinned_twice 0) \<and>
   fst (UnpinPage int_hash pool1_pinned_twice 0 True) \<and>
   pin_count (page_of (snd (UnpinPage int_hash pool1_pinned_twice 0 True)) 0) = 1 \<and>
   \<not> is_dirty (page_of (snd (UnpinPage int_hash pool1_pinned_twice 0 True)) 0)"
  by (simp add: bpm_defs ht_defs rep_defs Let_def)

text \<open>What \<open>DeletePage\<close> does, on every pool and page id.\<close>

lemma DeletePage_behaviour:
  "DeletePage h b p =
     (case HT_Find h (page_table b) p of
        Some f \<Rightarrow> Inr (True, b)
      | None \<Rightarrow> Inl Frame_out_of_range)"
  by (simp add: DeletePage_def DeletePage_frame_def valid_frame_def split: option.splits)

text \<open>
  C4, at the inputs where it fails. For the resident, pinned page 0, \<open>DeletePage\<close> returns
  true; for the resident, unpinned and dirty page 0 it returns true and changes nothing
  (no write, the page stays in its frame and in the page table); for page 5, which is not
  resident, it works on the frame at index -1.
\<close>

theorem DeletePage_guard_inverted:
  "HT_Find int_hash (page_table pool1_new) 0 = Some 0 \<and>
   pin_count (page_of pool1_new 0) = 1 \<and>
   DeletePage int_hash pool1_new 0 = Inr (True, pool1_new) \<and>
   HT_Find int_hash (page_table pool1_dirty) 0 = Some 0 \<and>
   pin_count (page_of pool1_dirty 0) = 0 \<and>
   is_dirty (page_of pool1_dirty 0) \<and>
   DeletePage int_hash pool1_dirty 0 = Inr (True, pool1_dirty) \<and>
   HT_Find int_hash (page_table pool1_new) 5 = None \<and>
   DeletePage int_hash pool1_new 5 = Inl Frame_out_of_range"
proof -
  have a: "HT_Find int_hash (page_table pool1_new) 0 = Some 0"
    "pin_count (page_of pool1_new 0) = 1"
    "HT_Find int_hash (page_table pool1_new) 5 = None"
    by (simp_all add: bpm_defs ht_defs rep_defs Let_def)
  have b: "HT_Find int_hash (page_table pool1_dirty) 0 = Some 0"
    "pin_count (page_of pool1_dirty 0) = 0" "is_dirty (page_of pool1_dirty 0)"
    by (simp_all add: bpm_defs ht_defs rep_defs Let_def)
  show ?thesis
    using a b by (simp add: DeletePage_def DeletePage_frame_def valid_frame_def)
qed

section \<open>Properties of the B+ tree pages\<close>

text \<open>The shifting loop moves the slots above \<open>insert_index\<close>, up to slot \<open>i\<close>, one to the right.\<close>

lemma shift_right_apply:
  "shift_right a i lo j = (if lo < j \<and> j \<le> i then a (j - 1) else a j)"
proof (induction a i lo arbitrary: j rule: shift_right.induct)
  case (1 a i insert_index)
  show ?case
  proof (cases "i > insert_index")
    case True
    have "shift_right a i insert_index j =
          shift_right (a(i := a (i - 1))) (i - 1) insert_index j"
      using True by (subst shift_right.simps) simp
    also have "\<dots> = (if insert_index < j \<and> j \<le> i - 1
                       then (a(i := a (i - 1))) (j - 1) else (a(i := a (i - 1))) j)"
      by (rule "1.IH"[OF True])
    also have "\<dots> = (if insert_index < j \<and> j \<le> i then a (j - 1) else a j)"
      using True by auto
    finally show ?thesis .
  next
    case False
    then show ?thesis by (subst shift_right.simps) auto
  qed
qed

text \<open>\<open>ValueIndex\<close> returns -1 for a value that no slot below \<open>GetSize()\<close> holds.\<close>

lemma ValueIndex_loop_absent:
  "(\<forall>j. i \<le> j \<and> j < node_size p \<longrightarrow> Internal_ValueAt p j \<noteq> v) \<Longrightarrow> ValueIndex_loop p v i = - 1"
proof (induction p v i rule: ValueIndex_loop.induct)
  case (1 p v i)
  show ?case
  proof (cases "i < node_size p")
    case True
    with "1.prems" have ne: "Internal_ValueAt p i \<noteq> v" by simp
    from "1.prems" have "\<forall>j. i + 1 \<le> j \<and> j < node_size p \<longrightarrow> Internal_ValueAt p j \<noteq> v" by simp
    from "1.IH"[OF True ne this] True ne show ?thesis
      by (subst ValueIndex_loop.simps) simp
  next
    case False
    then show ?thesis by (subst ValueIndex_loop.simps) simp
  qed
qed

text \<open>
  C10. When \<open>old_value\<close> is the child of no slot of the internal page,
  \<open>InsertAfterNode(old_value, key, new_value)\<close> does not fail: \<open>ValueIndex\<close> gives -1, the pair
  \<open>(key, new_value)\<close> is written to slot 0, every entry that was there, the child of slot 0
  included, is one slot further right, and the size has grown by one.
\<close>

theorem InsertAfterNode_absent_child:
  assumes "\<forall>j. 0 \<le> j \<and> j < node_size p \<longrightarrow> Internal_ValueAt p j \<noteq> old_value"
  shows "ValueIndex p old_value = - 1 \<and>
         node_size (InsertAfterNode p old_value key new_value) = node_size p + 1 \<and>
         internal_array (InsertAfterNode p old_value key new_value) 0 = (key, new_value) \<and>
         (\<forall>j. 0 \<le> j \<and> j < node_size p \<longrightarrow>
            internal_array (InsertAfterNode p old_value key new_value) (j + 1) =
              internal_array p j)"
proof -
  have v: "ValueIndex p old_value = - 1"
    unfolding ValueIndex_def using assms by (rule ValueIndex_loop_absent)
  show ?thesis
    by (simp add: v InsertAfterNode_def Let_def shift_right_apply)
qed

text \<open>On the page with the children 10 and 20, for the child 99.\<close>

theorem InsertAfterNode_absent_child_witness:
  "ValueIndex two_children 99 = - 1 \<and>
   node_size (InsertAfterNode two_children 99 (5::int) 30) = 3 \<and>
   internal_array (InsertAfterNode two_children 99 (5::int) 30) 0 = (5, 30) \<and>
   internal_array (InsertAfterNode two_children 99 (5::int) 30) 1 = (0, 10) \<and>
   internal_array (InsertAfterNode two_children 99 (5::int) 30) 2 = (15, 20)"
proof -
  have "\<forall>j. 0 \<le> j \<and> j < node_size two_children \<longrightarrow> Internal_ValueAt two_children j \<noteq> 99"
    by (simp add: two_children_def Internal_ValueAt_def)
  from InsertAfterNode_absent_child[OF this, of 5 30]
  have a: "ValueIndex two_children 99 = - 1"
    "node_size (InsertAfterNode two_children 99 5 30) = node_size two_children + 1"
    "internal_array (InsertAfterNode two_children 99 5 30) 0 = (5, 30)"
    and b: "\<forall>j. 0 \<le> j \<and> j < node_size two_children \<longrightarrow>
            internal_array (InsertAfterNode two_children 99 5 30) (j + 1) =
              internal_array two_children j"
    by blast+
  from b[rule_format, of 0] b[rule_format, of 1] a show ?thesis
    by (simp add: two_children_def)
qed

section \<open>Properties of the B+ tree\<close>

lemma KeyIndex_empty: "node_size p \<le> 0 \<Longrightarrow> KeyIndex cmp p key = 0"
  by (simp add: KeyIndex_def KeyIndex_loop.simps)

lemma KeyIndex_one: "node_size p = 1 \<Longrightarrow> KeyIndex cmp p key = 0"
  by (simp add: KeyIndex_def KeyIndex_loop.simps Let_def)

text \<open>
  After the insertion of \<open>key\<close> into an empty tree, \<open>GetValue(key)\<close> returns false, for
  every key that differs from the key of \<open>MappingType{}\<close>.
\<close>

lemma StartNewTree_GetValue:
  assumes "cmp (fst dflt) key \<noteq> 0"
  shows "GetValue cmp (StartNewTree cmp dflt blank t key value) key = Some (False, [])"
proof (cases "cmp (Leaf_KeyAt blank 0) key = 0")
  case True
  then show ?thesis
    by (simp add: GetValue_def StartNewTree_def FindLeaf_def FindLeaf_loop.simps Leaf_Lookup_def
        Leaf_Insert_def Leaf_Init_def Leaf_KeyAt_def KeyIndex_empty Let_def)
next
  case False
  with assms show ?thesis
    by (simp add: GetValue_def StartNewTree_def FindLeaf_def FindLeaf_loop.simps Leaf_Lookup_def
        Leaf_Insert_def Leaf_Init_def Leaf_KeyAt_def KeyIndex_empty KeyIndex_one Let_def
        shift_right_apply)
qed

theorem StartNewTree_GetValue_witness:
  "int_cmp (fst (0::int, - 1::int)) 7 = - 1 \<and>
   GetValue int_cmp (StartNewTree int_cmp (0, - 1) blank_leaf (new_BPlusTree 3 3 1) 7 70) 7 =
     Some (False, [])"
proof -
  have c: "int_cmp (fst (0::int, - 1::int)) 7 \<noteq> 0" by (simp add: int_cmp_def)
  from StartNewTree_GetValue[of int_cmp "(0, - 1)" 7 blank_leaf "new_BPlusTree 3 3 1" 70, OF c]
  show ?thesis
    by (simp add: int_cmp_def)
qed

text \<open>The definitions that evaluate the tree on a concrete input.\<close>

lemmas tree_defs =
  GetValue_def StartNewTree_def FindLeaf_def FindLeaf_loop.simps Leaf_Lookup_def
  Leaf_Insert_def Leaf_Init_def Leaf_KeyAt_def Leaf_ValueAt_def KeyIndex_def KeyIndex_loop.simps
  shift_right.simps new_BPlusTree_def blank_leaf_def int_cmp_def IsEmpty_def INVALID_PAGE_ID_def

text \<open>
  C2, at the input where it fails. \<open>Insert(7, 70)\<close> into an empty tree with
  \<open>leaf_max_size\<close> 3 runs \<open>StartNewTree\<close>, whose leaf \<open>Insert\<close> stores \<open>MappingType{}\<close>, here
  (0, -1), and not (7, 70). Then \<open>GetValue(7)\<close> returns false, and \<open>GetValue(0)\<close> returns true
  with the value -1 for a key that was never inserted. A second leaf \<open>Insert\<close> of 7 brings
  the size from 1 to 2, so \<open>InsertIntoLeaf\<close>, which takes an unchanged size for a
  duplicate, returns true.
\<close>

theorem first_insert_not_found:
  "IsEmpty (new_BPlusTree 3 3 1 :: (int, int) BPlusTree) \<and>
   GetValue int_cmp (StartNewTree int_cmp (0, - 1) blank_leaf (new_BPlusTree 3 3 1) 7 70) 7 =
     Some (False, []) \<and>
   GetValue int_cmp (StartNewTree int_cmp (0, - 1) blank_leaf (new_BPlusTree 3 3 1) 7 70) 0 =
     Some (True, [- 1]) \<and>
   fst (Leaf_Insert int_cmp (0, - 1) (Leaf_Init blank_leaf 1 (- 1) 3) 7 70) = 1 \<and>
   fst (Leaf_Insert int_cmp (0, - 1)
         (snd (Leaf_Insert int_cmp (0, - 1) (Leaf_Init blank_leaf 1 (- 1) 3) 7 70)) 7 70) = 2"
  by (simp add: tree_defs Let_def)

end
